theory Spec2Isabelle
  imports Complex_Main
begin

section \<open>Vehicle mapping core: vectors and poses\<close>

text \<open>
  The Python code computes on NumPy arrays of 64-bit floats.  The embedding reads every
  float as a real number, so rounding, overflow and NaN are outside the model; all
  comparisons, branches and index computations are those of the source.  A 4x4 pose
  matrix is a tuple of four rows, a point of an Nx3 array a triple, a point of an Nx2
  array a pair.
\<close>

type_synonym vec2 = "real \<times> real"
type_synonym vec3 = "real \<times> real \<times> real"
type_synonym row4 = "real \<times> real \<times> real \<times> real"
type_synonym mat4 = "row4 \<times> row4 \<times> row4 \<times> row4"

text \<open>\<^verbatim>\<open>np.eye(4)\<close>\<close>

definition eye4 :: mat4 where
  "eye4 = ((1, 0, 0, 0), (0, 1, 0, 0), (0, 0, 1, 0), (0, 0, 0, 1))"

text \<open>The pose with identity rotation and translation \<open>v\<close>.\<close>

fun translate :: "vec3 \<Rightarrow> mat4" where
  "translate (x, y, z) = ((1, 0, 0, x), (0, 1, 0, y), (0, 0, 1, z), (0, 0, 0, 1))"

text \<open>\<^verbatim>\<open>T[:3, 3]\<close>, the translation column of a pose.\<close>

fun translation :: "mat4 \<Rightarrow> vec3" where
  "translation ((a00, a01, a02, a03), (a10, a11, a12, a13), (a20, a21, a22, a23), r3) =
     (a03, a13, a23)"

text \<open>\<^verbatim>\<open>[p[0, 3], p[1, 3]]\<close>, the planar position of a pose.\<close>

fun translation_xy :: "mat4 \<Rightarrow> vec2" where
  "translation_xy ((a00, a01, a02, a03), (a10, a11, a12, a13), r2, r3) = (a03, a13)"

text \<open>\<^verbatim>\<open>pos[:2]\<close> of a 3D position.\<close>

fun xy :: "vec3 \<Rightarrow> vec2" where
  "xy (x, y, z) = (x, y)"

fun sub2 :: "vec2 \<Rightarrow> vec2 \<Rightarrow> vec2" where
  "sub2 (x1, y1) (x2, y2) = (x1 - x2, y1 - y2)"

fun sub3 :: "vec3 \<Rightarrow> vec3 \<Rightarrow> vec3" where
  "sub3 (x1, y1, z1) (x2, y2, z2) = (x1 - x2, y1 - y2, z1 - z2)"

fun add3 :: "vec3 \<Rightarrow> vec3 \<Rightarrow> vec3" where
  "add3 (x1, y1, z1) (x2, y2, z2) = (x1 + x2, y1 + y2, z1 + z2)"

text \<open>\<^verbatim>\<open>np.linalg.norm\<close> of a vector: the Euclidean norm.\<close>

fun norm2 :: "vec2 \<Rightarrow> real" where
  "norm2 (x, y) = sqrt (x ^ 2 + y ^ 2)"

fun norm3 :: "vec3 \<Rightarrow> real" where
  "norm3 (x, y, z) = sqrt (x ^ 2 + y ^ 2 + z ^ 2)"

section \<open>Spatial loop detector (loop\_detector.py, LoopDetector)\<close>

record loop_config =
  distance_threshold :: real
  min_frame_gap :: int

text \<open>The defaults of \<^verbatim>\<open>LoopDetector.__init__\<close>.\<close>

definition default_loop_config :: loop_config where
  "default_loop_config = \<lparr> distance_threshold = 5, min_frame_gap = 50 \<rparr>"

text \<open>
  \<^verbatim>\<open>LoopDetector.detect_candidates\<close>.  The pose dictionary is a finite map from pose
  ids to matrices; \<^verbatim>\<open>sorted(poses.keys())\<close> is the sorted list of its domain.  The
  two nested loops run over that list in order, skip a pair whose id difference is
  below the frame gap, and append the pair when the positions are closer than the
  distance threshold.
\<close>

definition detect_candidates :: "loop_config \<Rightarrow> (int \<rightharpoonup> mat4) \<Rightarrow> (int \<times> int) list" where
  "detect_candidates cfg poses =
     (let pose_ids = sorted_list_of_set (dom poses);
          positions = (\<lambda>k. translation (the (poses k)))
      in [(id_i, id_j).
            id_i \<leftarrow> pose_ids, id_j \<leftarrow> pose_ids,
            \<not> (id_j - id_i < min_frame_gap cfg),
            norm3 (sub3 (positions id_i) (positions id_j)) < distance_threshold cfg])"

section \<open>Waypoint extractor (waypoint\_extractor.py, WaypointExtractor)\<close>

record waypoint_config =
  min_distance :: real
  simplify :: bool
  simplify_tolerance :: real
  z_threshold :: "real option"

text \<open>The defaults of \<^verbatim>\<open>WaypointExtractor.__init__\<close>.\<close>

definition default_waypoint_config :: waypoint_config where
  "default_waypoint_config =
     \<lparr> min_distance = 1 / 2, simplify = True, simplify_tolerance = 1 / 10,
       z_threshold = None \<rparr>"

text \<open>
  The loop of \<^verbatim>\<open>_filter_by_distance\<close>: \<open>filtered\<close> is the list built so far, never
  empty; a position is appended when its planar distance to the last kept one is at
  least the minimum distance.
\<close>

fun filter_by_distance_loop :: "real \<Rightarrow> vec3 list \<Rightarrow> vec3 list \<Rightarrow> vec3 list" where
  "filter_by_distance_loop s filtered [] = filtered"
| "filter_by_distance_loop s filtered (pos # rest) =
     (let dist = norm2 (sub2 (xy pos) (xy (last filtered)))
      in if dist \<ge> s then filter_by_distance_loop s (filtered @ [pos]) rest
         else filter_by_distance_loop s filtered rest)"

definition filter_by_distance :: "waypoint_config \<Rightarrow> vec3 list \<Rightarrow> vec3 list" where
  "filter_by_distance cfg positions =
     (if length positions = 0 then positions
      else filter_by_distance_loop (min_distance cfg) [hd positions] (tl positions))"

text \<open>\<^verbatim>\<open>np.median\<close>: the middle of the sorted values, or the mean of the two middle ones.\<close>

definition median :: "real list \<Rightarrow> real" where
  "median xs =
     (let s = sort xs; n = length xs
      in if odd n then s ! (n div 2) else (s ! (n div 2 - 1) + s ! (n div 2)) / 2)"

fun zcoord :: "vec3 \<Rightarrow> real" where
  "zcoord (x, y, z) = z"

text \<open>\<^verbatim>\<open>_filter_by_z\<close> with the configured threshold \<open>zt\<close>.\<close>

definition filter_by_z :: "real \<Rightarrow> vec3 list \<Rightarrow> vec3 list" where
  "filter_by_z zt positions =
     (if length positions = 0 then positions
      else let z_ref = median (map zcoord positions)
           in filter (\<lambda>p. \<bar>zcoord p - z_ref\<bar> < zt) positions)"

fun add2 :: "vec2 \<Rightarrow> vec2 \<Rightarrow> vec2" where
  "add2 (x1, y1) (x2, y2) = (x1 + x2, y1 + y2)"

fun scale2 :: "real \<Rightarrow> vec2 \<Rightarrow> vec2" where
  "scale2 c (x, y) = (c * x, c * y)"

fun div2 :: "vec2 \<Rightarrow> real \<Rightarrow> vec2" where
  "div2 (x, y) c = (x / c, y / c)"

fun dot2 :: "vec2 \<Rightarrow> vec2 \<Rightarrow> real" where
  "dot2 (x1, y1) (x2, y2) = x1 * x2 + y1 * y2"

text \<open>
  The body of the distance loop of both Douglas-Peucker functions: the distance from
  \<open>p\<close> to its projection on the line through \<open>start\<close> with unit direction
  \<open>line_unit\<close>.
\<close>

definition point_line_distance :: "vec2 \<Rightarrow> vec2 \<Rightarrow> vec2 \<Rightarrow> real" where
  "point_line_distance start line_unit p =
     (let v = sub2 p start;
          proj_len = dot2 v line_unit;
          proj = add2 start (scale2 proj_len line_unit)
      in norm2 (sub2 p proj))"

text \<open>Python's \<^verbatim>\<open>max\<close> of a non-empty list and \<^verbatim>\<open>list.index\<close>.\<close>

definition list_max :: "real list \<Rightarrow> real" where
  "list_max xs = fold max (tl xs) (hd xs)"

definition index_of :: "real list \<Rightarrow> real \<Rightarrow> nat" where
  "index_of xs x = length (takeWhile (\<lambda>y. y \<noteq> x) xs)"

text \<open>
  \<^verbatim>\<open>WaypointExtractor._douglas_peucker\<close>, which returns the indices of the points to
  keep.  The function is recursive with no guard on the split index, so it need not
  return: the first argument is the recursion depth still available (Python's recursion
  limit), and \<open>None\<close> is the \<^verbatim>\<open>RecursionError\<close> of a call made with none left.
\<close>

fun douglas_peucker :: "nat \<Rightarrow> vec2 list \<Rightarrow> real \<Rightarrow> nat list option" where
  "douglas_peucker 0 points tolerance = None"
| "douglas_peucker (Suc depth) points tolerance =
     (if length points < 3 then Some [0..<length points]
      else
        let start = hd points; endp = last points;
            line_vec = sub2 endp start;
            line_len = norm2 line_vec
        in if line_len < 1 / 1000000 then Some [0, length points - 1]
           else
             let line_unit = div2 line_vec line_len;
                 distances = map (point_line_distance start line_unit) points;
                 max_dist = list_max distances;
                 max_idx = index_of distances max_dist
             in if max_dist > tolerance then
                  (case douglas_peucker depth (take (max_idx + 1) points) tolerance of
                     None \<Rightarrow> None
                   | Some left \<Rightarrow>
                       (case douglas_peucker depth (drop max_idx points) tolerance of
                          None \<Rightarrow> None
                        | Some right \<Rightarrow> Some (butlast left @ map (\<lambda>i. i + max_idx) right)))
                else Some [0, length points - 1])"

text \<open>\<^verbatim>\<open>_simplify_trajectory\<close>: \<^verbatim>\<open>positions[indices]\<close> selects the rows kept.\<close>

definition simplify_trajectory :: "nat \<Rightarrow> waypoint_config \<Rightarrow> vec3 list \<Rightarrow> vec3 list option" where
  "simplify_trajectory depth cfg positions =
     (if length positions < 3 then Some positions
      else case douglas_peucker depth (map xy positions) (simplify_tolerance cfg) of
             None \<Rightarrow> None
           | Some indices \<Rightarrow> Some (map (\<lambda>i. positions ! i) indices))"

text \<open>
  \<^verbatim>\<open>WaypointExtractor.extract\<close> (\<open>extract\<close> alone is a command name of Isabelle).
\<close>

definition waypoint_extract :: "nat \<Rightarrow> waypoint_config \<Rightarrow> (int \<rightharpoonup> mat4) \<Rightarrow> vec2 list option" where
  "waypoint_extract depth cfg poses =
     (if poses = Map.empty then Some []
      else
        let sorted_ids = sorted_list_of_set (dom poses);
            positions = map (\<lambda>i. translation (the (poses i))) sorted_ids;
            waypoints_3d = filter_by_distance cfg positions;
            waypoints_3d = (case z_threshold cfg of
                              None \<Rightarrow> waypoints_3d
                            | Some zt \<Rightarrow> filter_by_z zt waypoints_3d)
        in if simplify cfg then
             map_option (map xy) (simplify_trajectory depth cfg waypoints_3d)
           else Some (map xy waypoints_3d))"

section \<open>Waypoint extractor operator (operators/waypoint\_extractor\_op.py)\<close>

text \<open>
  The fields of the operator that \<^verbatim>\<open>_extract_waypoints\<close> reads: the three
  parameters and the poses accumulated by \<^verbatim>\<open>on_event\<close>.
\<close>

record waypoint_operator =
  min_spacing :: real
  simplify_op :: bool
  epsilon :: real
  op_poses :: "mat4 list"

text \<open>
  The loop of \<^verbatim>\<open>Operator._douglas_peucker\<close> over the interior indices, carrying
  \<open>(max_dist, max_idx)\<close> from \<open>(0, 0)\<close>.
\<close>

definition find_max_interior :: "vec2 list \<Rightarrow> vec2 \<Rightarrow> vec2 \<Rightarrow> real \<times> nat" where
  "find_max_interior points start line_unit =
     fold (\<lambda>i (max_dist, max_idx).
             let dist = point_line_distance start line_unit (points ! i)
             in if dist > max_dist then (dist, i) else (max_dist, max_idx))
          [1..<length points - 1] (0, 0)"

text \<open>
  \<^verbatim>\<open>Operator._douglas_peucker\<close>, which returns the points kept; the depth argument
  is as for \<open>douglas_peucker\<close>.
\<close>

fun douglas_peucker_op :: "nat \<Rightarrow> vec2 list \<Rightarrow> real \<Rightarrow> vec2 list option" where
  "douglas_peucker_op 0 points eps = None"
| "douglas_peucker_op (Suc depth) points eps =
     (if length points \<le> 2 then Some points
      else
        let start = hd points; endp = last points;
            line_vec = sub2 endp start;
            line_len = norm2 line_vec
        in if line_len < 1 / 1000000 then Some [start, endp]
           else
             let line_unit = div2 line_vec line_len;
                 (max_dist, max_idx) = find_max_interior points start line_unit
             in if max_dist > eps then
                  (case douglas_peucker_op depth (take (max_idx + 1) points) eps of
                     None \<Rightarrow> None
                   | Some left \<Rightarrow>
                       (case douglas_peucker_op depth (drop max_idx points) eps of
                          None \<Rightarrow> None
                        | Some right \<Rightarrow> Some (butlast left @ right)))
                else Some [start, endp])"

text \<open>The minimum-spacing loop of \<^verbatim>\<open>_extract_waypoints\<close>.\<close>

fun spacing_loop :: "real \<Rightarrow> vec2 list \<Rightarrow> vec2 list \<Rightarrow> vec2 list" where
  "spacing_loop s waypoints [] = waypoints"
| "spacing_loop s waypoints (p # rest) =
     (let dist = norm2 (sub2 p (last waypoints))
      in if dist \<ge> s then spacing_loop s (waypoints @ [p]) rest
         else spacing_loop s waypoints rest)"

text \<open>\<^verbatim>\<open>Operator._extract_waypoints\<close>.\<close>

definition extract_waypoints :: "nat \<Rightarrow> waypoint_operator \<Rightarrow> vec2 list option" where
  "extract_waypoints depth self =
     (if length (op_poses self) = 0 then Some []
      else
        let trajectory = map translation_xy (op_poses self)
        in if simplify_op self then douglas_peucker_op depth trajectory (epsilon self)
           else
             let waypoints = spacing_loop (min_spacing self) [hd trajectory] (tl trajectory);
                 waypoints =
                   (if length waypoints > 0 then
                      let last_dist = norm2 (sub2 (last trajectory) (last waypoints))
                      in if last_dist > 1 / 10 then waypoints @ [last trajectory]
                         else waypoints
                    else waypoints)
             in Some waypoints)"

section \<open>Pose arithmetic used by the odometry and the pose graph\<close>

fun dot4 :: "row4 \<Rightarrow> row4 \<Rightarrow> real" where
  "dot4 (a0, a1, a2, a3) (b0, b1, b2, b3) = a0 * b0 + a1 * b1 + a2 * b2 + a3 * b3"

fun columns :: "mat4 \<Rightarrow> mat4" where
  "columns ((a00, a01, a02, a03), (a10, a11, a12, a13), (a20, a21, a22, a23),
            (a30, a31, a32, a33)) =
     ((a00, a10, a20, a30), (a01, a11, a21, a31), (a02, a12, a22, a32),
      (a03, a13, a23, a33))"

fun row_times :: "row4 \<Rightarrow> mat4 \<Rightarrow> row4" where
  "row_times r (c0, c1, c2, c3) = (dot4 r c0, dot4 r c1, dot4 r c2, dot4 r c3)"

text \<open>The matrix product \<^verbatim>\<open>A @ B\<close> of two 4x4 matrices.\<close>

fun matmul :: "mat4 \<Rightarrow> mat4 \<Rightarrow> mat4" where
  "matmul (r0, r1, r2, r3) B =
     (row_times r0 (columns B), row_times r1 (columns B), row_times r2 (columns B),
      row_times r3 (columns B))"

text \<open>\<^verbatim>\<open>T[:3, :3]\<close>, the rotation block, and \<^verbatim>\<open>T[3, :]\<close>, the bottom row.\<close>

fun rotation :: "mat4 \<Rightarrow> vec3 \<times> vec3 \<times> vec3" where
  "rotation ((a00, a01, a02, a03), (a10, a11, a12, a13), (a20, a21, a22, a23), r3) =
     ((a00, a01, a02), (a10, a11, a12), (a20, a21, a22))"

fun bottom_row :: "mat4 \<Rightarrow> row4" where
  "bottom_row (r0, r1, r2, r3) = r3"

text \<open>\<^verbatim>\<open>(T[:3, :3] @ pts.T).T + T[:3, 3]\<close>, for one point of \<^verbatim>\<open>pts\<close>.\<close>

fun transform_point :: "mat4 \<Rightarrow> vec3 \<Rightarrow> vec3" where
  "transform_point ((a00, a01, a02, a03), (a10, a11, a12, a13), (a20, a21, a22, a23), r3)
       (x, y, z) =
     (a00 * x + a01 * y + a02 * z + a03,
      a10 * x + a11 * y + a12 * z + a13,
      a20 * x + a21 * y + a22 * z + a23)"

text \<open>\<^verbatim>\<open>T = T.copy(); T[:3, 3] += velocity\<close>\<close>

fun add_translation :: "mat4 \<Rightarrow> vec3 \<Rightarrow> mat4" where
  "add_translation ((a00, a01, a02, a03), (a10, a11, a12, a13), (a20, a21, a22, a23), r3)
       (vx, vy, vz) =
     ((a00, a01, a02, a03 + vx), (a10, a11, a12, a13 + vy), (a20, a21, a22, a23 + vz), r3)"

text \<open>\<^verbatim>\<open>pose.flatten()\<close>, row by row.\<close>

fun flatten_row :: "row4 \<Rightarrow> real list" where
  "flatten_row (a0, a1, a2, a3) = [a0, a1, a2, a3]"

fun flatten :: "mat4 \<Rightarrow> real list" where
  "flatten (r0, r1, r2, r3) = flatten_row r0 @ flatten_row r1 @ flatten_row r2 @ flatten_row r3"

section \<open>ICP odometry (simple\_icp.py and operators/icp\_odometry\_op.py)\<close>

text \<open>
  Open3D is an external library.  Its two uses are parameters of the model: the
  preprocessing of a cloud (voxel downsampling and normal estimation, read as a
  function from points to points) and \<^verbatim>\<open>registration_icp\<close>, read as a function
  from the source and target points to the registration result.  The thresholds and
  iteration caps these calls receive are fixed per odometry object and are part of the
  two functions.
\<close>

record icp_result =
  icp_transformation :: mat4
  icp_fitness :: real
  icp_inlier_rmse :: real

record open3d =
  preprocess :: "vec3 list \<Rightarrow> vec3 list"
  registration_icp :: "vec3 list \<Rightarrow> vec3 list \<Rightarrow> icp_result"

text \<open>
  A stand-in for the library, for concrete runs: preprocessing keeps the points and
  every registration returns the given result.
\<close>

definition constant_open3d :: "icp_result \<Rightarrow> open3d" where
  "constant_open3d r = \<lparr> preprocess = (\<lambda>pts. pts), registration_icp = (\<lambda>source target. r) \<rparr>"

text \<open>The slice \<^verbatim>\<open>pts[::step]\<close> for a positive step.\<close>

fun every_nth :: "nat \<Rightarrow> 'a list \<Rightarrow> 'a list" where
  "every_nth step [] = []"
| "every_nth step (x # xs) = x # every_nth step (drop (step - 1) xs)"

text \<open>
  The motion model of both odometry functions, applied to the list of poses so far:
  with two poses or more the last pose is copied and the last translation step added
  to its translation column; with one pose the last pose is copied.
\<close>

definition motion_model :: "mat4 list \<Rightarrow> mat4" where
  "motion_model ps =
     (if length ps \<ge> 2 then
        let velocity = sub3 (translation (last ps)) (translation (ps ! (length ps - 2)))
        in add_translation (last ps) velocity
      else last ps)"

text \<open>
  The pose validation of both odometry functions: the translation jump of the candidate
  against the previous pose is compared with the threshold (0.25 * 3 in
  \<^verbatim>\<open>run_on_sequence\<close>, the literal 0.75 in the operator); above it the motion model
  replaces the candidate and the fitness becomes 0.
\<close>

definition validate_pose :: "real \<Rightarrow> mat4 list \<Rightarrow> mat4 \<Rightarrow> real \<Rightarrow> mat4 \<times> real" where
  "validate_pose threshold ps T_abs fit =
     (let delta_pos = norm3 (sub3 (translation T_abs) (translation (last ps)))
      in if delta_pos > threshold then (motion_model ps, 0) else (T_abs, fit))"

subsection \<open>SimpleICPOdometry.run\_on\_sequence\<close>

text \<open>
  The candidate pose of iteration \<open>i\<close>: the target cloud (the local map of the last
  \<open>window_size\<close> world clouds, each decimated, or the previous world cloud), the current
  frame moved by the last pose, the registration, and the correction applied to the
  last pose.
\<close>

definition seq_registration ::
    "open3d \<Rightarrow> bool \<Rightarrow> nat \<Rightarrow> vec3 list list \<Rightarrow> mat4 list \<Rightarrow> vec3 list list \<Rightarrow> nat \<Rightarrow> icp_result" where
  "seq_registration o3d use_local_map window_size point_clouds ps world_clouds i =
     (let start_idx = nat (max 0 (int i - int window_size));
          target_pcd =
            (if use_local_map \<and> i > 1 then
               preprocess o3d
                 (concat (map (\<lambda>j. let pts_world = world_clouds ! j;
                                       step = max 1 (length pts_world div 5000)
                                   in every_nth step pts_world)
                              [start_idx..<i]))
             else preprocess o3d (world_clouds ! (i - 1)));
          curr_pcd = preprocess o3d (point_clouds ! i);
          curr_world = map (transform_point (last ps)) curr_pcd
      in registration_icp o3d curr_world target_pcd)"

text \<open>
  One iteration of the loop.  The state is \<open>(poses, world_clouds)\<close>; the second
  component of the result is the value of the local variable \<open>fitness\<close> at the end of
  the iteration, which the source prints in verbose mode.
\<close>

definition seq_iteration ::
    "open3d \<Rightarrow> bool \<Rightarrow> nat \<Rightarrow> vec3 list list \<Rightarrow> mat4 list \<times> vec3 list list \<Rightarrow> nat
       \<Rightarrow> (mat4 list \<times> vec3 list list) \<times> real" where
  "seq_iteration o3d use_local_map window_size point_clouds st i =
     (case st of (ps, world_clouds) \<Rightarrow>
        let result = seq_registration o3d use_local_map window_size point_clouds ps world_clouds i;
            T_correction = icp_transformation result;
            T_abs = matmul T_correction (last ps);
            expected_motion = 1 / 4;
            (T_abs, fit) = validate_pose (expected_motion * 3) ps T_abs (icp_fitness result)
        in ((ps @ [T_abs], world_clouds @ [map (transform_point T_abs) (point_clouds ! i)]), fit))"

text \<open>
  The loop over the frame indices still to do, returning the final state and the fitness
  of each iteration in order.
\<close>

fun seq_loop ::
    "open3d \<Rightarrow> bool \<Rightarrow> nat \<Rightarrow> vec3 list list \<Rightarrow> mat4 list \<times> vec3 list list \<Rightarrow> nat list
       \<Rightarrow> (mat4 list \<times> vec3 list list) \<times> real list" where
  "seq_loop o3d use_local_map window_size point_clouds st [] = (st, [])"
| "seq_loop o3d use_local_map window_size point_clouds st (i # rest) =
     (case seq_iteration o3d use_local_map window_size point_clouds st i of
        (st', fit) \<Rightarrow>
          (case seq_loop o3d use_local_map window_size point_clouds st' rest of
             (st'', fits) \<Rightarrow> (st'', fit # fits)))"

text \<open>\<^verbatim>\<open>run_on_sequence\<close>: the poses of the final state.\<close>

definition run_on_sequence :: "open3d \<Rightarrow> vec3 list list \<Rightarrow> bool \<Rightarrow> nat \<Rightarrow> mat4 list" where
  "run_on_sequence o3d point_clouds use_local_map window_size =
     (let n_frames = length point_clouds
      in if n_frames = 0 then []
         else fst (fst (seq_loop o3d use_local_map window_size point_clouds
                          ([eye4], [point_clouds ! 0]) [1..<n_frames])))"

subsection \<open>The odometry operator\<close>

record icp_operator =
  icp_poses :: "mat4 list"
  icp_world_clouds :: "vec3 list list"
  icp_window_size :: nat
  icp_frame_count :: nat

text \<open>The state set up by \<^verbatim>\<open>Operator.__init__\<close>.\<close>

definition icp_operator_init :: icp_operator where
  "icp_operator_init =
     \<lparr> icp_poses = [eye4], icp_world_clouds = [], icp_window_size = 5, icp_frame_count = 0 \<rparr>"

text \<open>The local map of \<^verbatim>\<open>_register_frame\<close>: the list of decimated recent world clouds.\<close>

definition local_map :: "icp_operator \<Rightarrow> vec3 list list" where
  "local_map self =
     (let start_idx = nat (max 0 (int (length (icp_world_clouds self)) - int (icp_window_size self)))
      in map (\<lambda>pts. every_nth (max 1 (length pts div 5000)) pts)
           (drop start_idx (icp_world_clouds self)))"

text \<open>The registration of \<^verbatim>\<open>_register_frame\<close> for the current points.\<close>

definition op_registration :: "open3d \<Rightarrow> icp_operator \<Rightarrow> vec3 list \<Rightarrow> icp_result" where
  "op_registration o3d self points =
     (let target_pcd = preprocess o3d (concat (local_map self));
          curr_pts = preprocess o3d points;
          prev_pose = last (icp_poses self);
          curr_world = map (transform_point prev_pose) curr_pts
      in registration_icp o3d curr_world target_pcd)"

text \<open>\<^verbatim>\<open>Operator._register_frame\<close>: the new state and \<open>(pose, fitness, rmse)\<close>.\<close>

definition register_frame ::
    "open3d \<Rightarrow> icp_operator \<Rightarrow> vec3 list \<Rightarrow> icp_operator \<times> (mat4 \<times> real \<times> real)" where
  "register_frame o3d self points =
     (if icp_frame_count self = 0 then
        (self \<lparr> icp_world_clouds := icp_world_clouds self @ [points],
                icp_frame_count := icp_frame_count self + 1 \<rparr>,
         (eye4, 1, 0))
      else if local_map self = [] then (self, (last (icp_poses self), 0, 0))
      else
        let result = op_registration o3d self points;
            prev_pose = last (icp_poses self);
            T_correction = icp_transformation result;
            T_abs = matmul T_correction prev_pose;
            (T_abs, fit) = validate_pose (3 / 4) (icp_poses self) T_abs (icp_fitness result)
        in (self \<lparr> icp_poses := icp_poses self @ [T_abs],
                   icp_world_clouds := icp_world_clouds self @ [map (transform_point T_abs) points],
                   icp_frame_count := icp_frame_count self + 1 \<rparr>,
            (T_abs, fit, icp_inlier_rmse result)))"

text \<open>
  The events the operator receives: an input with its id and its flat array of floats,
  the stop event, and any other event type.
\<close>

datatype dora_event = Input string "real list" | Stop | Other_event

datatype dora_status = CONTINUE | STOP

datatype py_error = ValueError | LinAlgError | IndexError

text \<open>\<^verbatim>\<open>points_flat.reshape(-1, 3)\<close>, which raises when the length is no multiple of 3.\<close>

fun reshape3 :: "real list \<Rightarrow> vec3 list option" where
  "reshape3 [] = Some []"
| "reshape3 (x # y # z # rest) = map_option ((#) (x, y, z)) (reshape3 rest)"
| "reshape3 _ = None"

text \<open>
  \<^verbatim>\<open>Operator.on_event\<close>: the new state, the outputs sent (output id and array, in
  order) and the status returned.
\<close>

definition on_event ::
    "open3d \<Rightarrow> icp_operator \<Rightarrow> dora_event
       \<Rightarrow> py_error + (icp_operator \<times> (string \<times> real list) list \<times> dora_status)" where
  "on_event o3d self dora_event =
     (case dora_event of
        Input event_id val \<Rightarrow>
          if event_id = ''pointcloud'' then
            if length val = 0 then Inr (self, [], CONTINUE)
            else
              (case reshape3 val of
                 None \<Rightarrow> Inl ValueError
               | Some points \<Rightarrow>
                   (case register_frame o3d self points of
                      (self', pose, fit, rmse) \<Rightarrow>
                        Inr (self',
                             [(''pose'', flatten pose),
                              (''odometry_status'',
                                 [real (icp_frame_count self') - 1, fit, rmse])],
                             CONTINUE)))
          else Inr (self, [], CONTINUE)
      | Stop \<Rightarrow> Inr (self, [], STOP)
      | Other_event \<Rightarrow> Inr (self, [], CONTINUE))"

text \<open>
  The fitness an event reported: the second entry of the \<^verbatim>\<open>odometry_status\<close> output,
  when one was sent.
\<close>

definition reported_fitness :: "(string \<times> real list) list \<Rightarrow> real option" where
  "reported_fitness outputs =
     (case map_of outputs ''odometry_status'' of
        Some [idx, fit, rmse] \<Rightarrow> Some fit
      | _ \<Rightarrow> None)"

section \<open>Pose graph (pose\_graph.py, PoseGraphOptimizer)\<close>

text \<open>
  GTSAM and \<^verbatim>\<open>np.linalg.inv\<close> are external.  A \<^verbatim>\<open>Pose3\<close> is the rotation block and
  the translation it is built from; a factor records its kind, its keys, its measured
  pose and which of the optimizer's three noise models it carries.  The matrix inverse
  and the Levenberg-Marquardt solver are parameters: the inverse returns \<open>None\<close> where
  NumPy raises \<^verbatim>\<open>LinAlgError\<close>, the solver maps the factors and the initial estimates
  to the optimized value of every key.
\<close>

type_synonym pose3 = "(vec3 \<times> vec3 \<times> vec3) \<times> vec3"

datatype noise_model = Noise_prior | Noise_odom | Noise_loop

datatype factor =
    PriorFactorPose3 nat pose3 noise_model
  | BetweenFactorPose3 nat nat pose3 noise_model


record pose_graph_optimizer =
  pg_graph :: "factor list"
  pg_initial_estimates :: "(nat \<times> pose3) list"
  pg_pose_ids :: "nat set"
  pg_n_odom_factors :: nat
  pg_n_loop_factors :: nat


definition matrix_to_pose3 :: "mat4 \<Rightarrow> pose3" where
  "matrix_to_pose3 m = (rotation m, translation m)"





definition add_loop_closure ::
    "pose_graph_optimizer \<Rightarrow> nat \<Rightarrow> nat \<Rightarrow> mat4 \<Rightarrow> pose_graph_optimizer" where
  "add_loop_closure self id_from id_to relative_pose =
     (let pose3 = matrix_to_pose3 relative_pose
      in self \<lparr> pg_graph := pg_graph self @ [BetweenFactorPose3 id_from id_to pose3 Noise_loop],
                pg_n_loop_factors := pg_n_loop_factors self + 1 \<rparr>)"






section \<open>Scan Context detector (loop\_detector.py, ScanContextDetector)\<close>

record scan_context_config =
  num_sectors :: nat
  num_rings :: nat
  max_range :: real

text \<open>The defaults of \<^verbatim>\<open>ScanContextDetector.__init__\<close>.\<close>

definition default_scan_context_config :: scan_context_config where
  "default_scan_context_config = \<lparr> num_sectors = 60, num_rings = 20, max_range = 80 \<rparr>"

text \<open>
  \<^verbatim>\<open>np.arctan2(y, x)\<close>, the angle of the point \<open>(x, y)\<close> in \<open>(-pi, pi]\<close>, with 0 at
  the origin.
\<close>

definition arctan2 :: "real \<Rightarrow> real \<Rightarrow> real" where
  "arctan2 y x =
     (if x > 0 then arctan (y / x)
      else if x < 0 \<and> y \<ge> 0 then arctan (y / x) + pi
      else if x < 0 \<and> y < 0 then arctan (y / x) - pi
      else if y > 0 then pi / 2
      else if y < 0 then - pi / 2
      else 0)"

text \<open>\<^verbatim>\<open>.astype(int)\<close> truncates towards zero; \<^verbatim>\<open>np.clip\<close> is a maximum then a minimum.\<close>

definition astype_int :: "real \<Rightarrow> int" where
  "astype_int x = (if x \<ge> 0 then \<lfloor>x\<rfloor> else \<lceil>x\<rceil>)"

definition clip :: "int \<Rightarrow> int \<Rightarrow> int \<Rightarrow> int" where
  "clip a lo hi = min (max a lo) hi"

fun range_idx :: "scan_context_config \<Rightarrow> vec3 \<Rightarrow> int" where
  "range_idx cfg (x, y, z) =
     clip (astype_int (sqrt (x ^ 2 + y ^ 2) / max_range cfg * real (num_rings cfg)))
          0 (int (num_rings cfg) - 1)"

fun angle_idx :: "scan_context_config \<Rightarrow> vec3 \<Rightarrow> int" where
  "angle_idx cfg (x, y, z) =
     clip (astype_int ((arctan2 y x + pi) / (2 * pi) * real (num_sectors cfg)))
          0 (int (num_sectors cfg) - 1)"

text \<open>
  An integer index into an axis of the given size, as NumPy reads it: a negative index
  counts from the end, and an index outside the axis raises \<^verbatim>\<open>IndexError\<close>.
\<close>

definition py_index :: "nat \<Rightarrow> int \<Rightarrow> nat option" where
  "py_index n i =
     (if 0 \<le> i \<and> i < int n then Some (nat i)
      else if - int n \<le> i \<and> i < 0 then Some (nat (int n + i))
      else None)"

text \<open>
  The loop of \<^verbatim>\<open>compute_descriptor\<close> over the points, updating the descriptor (a
  list of \<open>num_rings\<close> rows of \<open>num_sectors\<close> entries) at the bin of each point.
\<close>

fun descriptor_loop ::
    "scan_context_config \<Rightarrow> vec3 list \<Rightarrow> real list list \<Rightarrow> py_error + real list list" where
  "descriptor_loop cfg [] descriptor = Inr descriptor"
| "descriptor_loop cfg (p # rest) descriptor =
     (case (py_index (num_rings cfg) (range_idx cfg p),
            py_index (num_sectors cfg) (angle_idx cfg p)) of
        (Some r, Some a) \<Rightarrow>
          descriptor_loop cfg rest
            (descriptor [r := (descriptor ! r) [a := max (descriptor ! r ! a) (zcoord p)]])
      | _ \<Rightarrow> Inl IndexError)"

text \<open>\<^verbatim>\<open>compute_descriptor\<close>, starting from \<^verbatim>\<open>np.zeros((num_rings, num_sectors))\<close>.\<close>

definition compute_descriptor ::
    "scan_context_config \<Rightarrow> vec3 list \<Rightarrow> py_error + real list list" where
  "compute_descriptor cfg points =
     descriptor_loop cfg points (replicate (num_rings cfg) (replicate (num_sectors cfg) 0))"

text \<open>\<^verbatim>\<open>np.roll(row, shift)\<close>: the entry at \<open>i\<close> moves to \<open>(i + shift) mod n\<close>.\<close>

definition roll :: "nat \<Rightarrow> 'a list \<Rightarrow> 'a list" where
  "roll shift xs =
     (let n = length xs
      in if n = 0 then xs else drop (n - shift mod n) xs @ take (n - shift mod n) xs)"

text \<open>
  \<^verbatim>\<open>np.linalg.norm\<close> of a matrix (the Frobenius norm) and \<^verbatim>\<open>np.sum(desc1 * shifted)\<close>
  for two matrices of the same shape.
\<close>

definition frobenius_norm :: "real list list \<Rightarrow> real" where
  "frobenius_norm d = sqrt (sum_list (map (\<lambda>x. x ^ 2) (concat d)))"

definition sum_of_products :: "real list list \<Rightarrow> real list list \<Rightarrow> real" where
  "sum_of_products d1 d2 = sum_list (map2 (\<lambda>r1 r2. sum_list (map2 (*) r1 r2)) d1 d2)"

text \<open>The loop of \<^verbatim>\<open>_compute_similarity\<close> over the shifts still to try.\<close>

fun similarity_loop :: "real list list \<Rightarrow> real list list \<Rightarrow> nat list \<Rightarrow> real \<Rightarrow> real" where
  "similarity_loop desc1 desc2 [] best_sim = best_sim"
| "similarity_loop desc1 desc2 (shift # rest) best_sim =
     (let shifted = map (roll shift) desc2;
          nrm1 = frobenius_norm desc1;
          nrm2 = frobenius_norm shifted
      in if nrm1 > 0 \<and> nrm2 > 0 then
           let sim = sum_of_products desc1 shifted / (nrm1 * nrm2)
           in similarity_loop desc1 desc2 rest (max best_sim sim)
         else similarity_loop desc1 desc2 rest best_sim)"

definition compute_similarity ::
    "scan_context_config \<Rightarrow> real list list \<Rightarrow> real list list \<Rightarrow> real" where
  "compute_similarity cfg desc1 desc2 =
     similarity_loop desc1 desc2 [0..<num_sectors cfg] 0"

text \<open>
  The bin a point falls in (ring index, sector index), the shape of a descriptor, and
  the property that no entry of a descriptor is negative.
\<close>

definition bin_of :: "scan_context_config \<Rightarrow> vec3 \<Rightarrow> nat \<times> nat" where
  "bin_of cfg p = (nat (range_idx cfg p), nat (angle_idx cfg p))"

definition well_shaped :: "scan_context_config \<Rightarrow> real list list \<Rightarrow> bool" where
  "well_shaped cfg d \<longleftrightarrow>
     length d = num_rings cfg \<and> (\<forall>r < num_rings cfg. length (d ! r) = num_sectors cfg)"

definition nonneg_entries :: "real list list \<Rightarrow> bool" where
  "nonneg_entries d \<longleftrightarrow> (\<forall>row \<in> set d. \<forall>x \<in> set row. 0 \<le> x)"

text \<open>
  Notions used to state the properties of the two Douglas-Peucker functions: the unit
  direction of the chord from the first to the last point, the deviation of a point from
  that chord as both functions compute it, and an index list that starts at 0, ends at
  \<open>n - 1\<close> and increases strictly.
\<close>

definition chord_unit :: "vec2 list \<Rightarrow> vec2" where
  "chord_unit points =
     div2 (sub2 (last points) (hd points)) (norm2 (sub2 (last points) (hd points)))"

definition chord_deviation :: "vec2 list \<Rightarrow> vec2 \<Rightarrow> real" where
  "chord_deviation points p = point_line_distance (hd points) (chord_unit points) p"

definition keeps_endpoints :: "nat \<Rightarrow> nat list \<Rightarrow> bool" where
  "keeps_endpoints n idxs \<longleftrightarrow>
     idxs \<noteq> [] \<and> hd idxs = 0 \<and> last idxs = n - 1 \<and> sorted_wrt (<) idxs"

text \<open>
  Further notions for the two Douglas-Peucker functions: the run of the points from
  index \<open>a\<close> to index \<open>b\<close>, both included; the test under which both functions reduce
  a run to its two ends (its chord is shorter than 1e-6, or no interior point deviates
  from the chord by more than the tolerance); and an index list of which every two
  successive indices are the ends of a run that passes this test.
\<close>

definition segment :: "vec2 list \<Rightarrow> nat \<Rightarrow> nat \<Rightarrow> vec2 list" where
  "segment points a b = take (b - a + 1) (drop a points)"

definition within_tolerance :: "real \<Rightarrow> vec2 list \<Rightarrow> bool" where
  "within_tolerance tol points \<longleftrightarrow>
     norm2 (sub2 (last points) (hd points)) < 1 / 1000000 \<or>
     (\<forall>i \<in> {1..<length points - 1}. chord_deviation points (points ! i) \<le> tol)"

definition dropped_within :: "real \<Rightarrow> vec2 list \<Rightarrow> nat list \<Rightarrow> bool" where
  "dropped_within tol points idxs \<longleftrightarrow>
     successively (\<lambda>a b. within_tolerance tol (segment points a b)) idxs"


section \<open>Properties of the spatial loop detector\<close>

lemma distinct_concat_map:
  assumes "distinct xs"
    and "\<And>x. x \<in> set xs \<Longrightarrow> distinct (f x)"
    and "\<And>x y. x \<in> set xs \<Longrightarrow> y \<in> set xs \<Longrightarrow> x \<noteq> y \<Longrightarrow> set (f x) \<inter> set (f y) = {}"
  shows "distinct (concat (map f xs))"
  using assms
proof (induction xs)
  case Nil
  then show ?case by simp
next
  case (Cons x xs)
  have "set (f x) \<inter> set (f y) = {}" if "y \<in> set xs" for y
    using Cons.prems(1) Cons.prems(3) [of x y] that by auto
  with Cons show ?case by auto
qed

lemma set_detect_candidates:
  assumes "finite (dom poses)"
  shows "set (detect_candidates cfg poses) =
    {(i, j). i \<in> dom poses \<and> j \<in> dom poses \<and> min_frame_gap cfg \<le> j - i \<and>
       norm3 (sub3 (translation (the (poses i))) (translation (the (poses j))))
         < distance_threshold cfg}"
  using assms by (auto simp: detect_candidates_def Let_def)

lemma distinct_detect_candidates: "distinct (detect_candidates cfg poses)"
  unfolding detect_candidates_def Let_def
  by (intro distinct_concat_map) (auto split: if_splits)

text \<open>
  Claim C5.  For a (finite) pose dictionary and a positive minimum frame gap, the
  candidate list of the spatial loop detector holds exactly the pairs \<open>(i, j)\<close> of
  pose ids with \<open>j > i\<close>, \<open>j - i\<close> at least the gap and the two translations strictly
  closer than the distance threshold, each pair once.
\<close>

theorem detect_candidates_exact:
  assumes "finite (dom poses)" and "0 < min_frame_gap cfg"
  shows "set (detect_candidates cfg poses) =
           {(i, j). i \<in> dom poses \<and> j \<in> dom poses \<and> i < j \<and>
              min_frame_gap cfg \<le> j - i \<and>
              norm3 (sub3 (translation (the (poses i))) (translation (the (poses j))))
                < distance_threshold cfg} \<and>
         distinct (detect_candidates cfg poses)"
proof -
  have "min_frame_gap cfg \<le> j - i \<longleftrightarrow> i < j \<and> min_frame_gap cfg \<le> j - i" for i j
    using assms(2) by auto
  then show ?thesis
    using set_detect_candidates [OF assms(1), of cfg] distinct_detect_candidates [of cfg poses]
    by auto
qed

text \<open>
  The default detector on poses 0, 60 and 70, placed at x = 0, 1 and 9: only the pair
  (0, 60) is both 50 ids apart and closer than 5.
\<close>

lemma detect_candidates_example:
  "detect_candidates default_loop_config
      [0 \<mapsto> eye4, 60 \<mapsto> translate (1, 0, 0), 70 \<mapsto> translate (9, 0, 0)] = [(0, 60)]"
  by (simp add: detect_candidates_def default_loop_config_def eye4_def Let_def)

theorem detect_candidates_exact_witness:
  "finite (dom [0 \<mapsto> eye4, (60::int) \<mapsto> translate (1, 0, 0), 70 \<mapsto> translate (9, 0, 0)]) \<and>
   0 < min_frame_gap default_loop_config \<and>
   detect_candidates default_loop_config
      [0 \<mapsto> eye4, 60 \<mapsto> translate (1, 0, 0), 70 \<mapsto> translate (9, 0, 0)] = [(0, 60)] \<and>
   set (detect_candidates default_loop_config
      [0 \<mapsto> eye4, 60 \<mapsto> translate (1, 0, 0), 70 \<mapsto> translate (9, 0, 0)]) =
     {(i, j).
        i \<in> dom [0 \<mapsto> eye4, (60::int) \<mapsto> translate (1, 0, 0), 70 \<mapsto> translate (9, 0, 0)] \<and>
        j \<in> dom [0 \<mapsto> eye4, (60::int) \<mapsto> translate (1, 0, 0), 70 \<mapsto> translate (9, 0, 0)] \<and>
        i < j \<and> min_frame_gap default_loop_config \<le> j - i \<and>
        norm3 (sub3
           (translation (the ([0 \<mapsto> eye4, (60::int) \<mapsto> translate (1, 0, 0),
              70 \<mapsto> translate (9, 0, 0)] i)))
           (translation (the ([0 \<mapsto> eye4, (60::int) \<mapsto> translate (1, 0, 0),
              70 \<mapsto> translate (9, 0, 0)] j))))
          < distance_threshold default_loop_config}"
  using detect_candidates_exact
      [of "[0 \<mapsto> eye4, 60 \<mapsto> translate (1, 0, 0), 70 \<mapsto> translate (9, 0, 0)]"
          default_loop_config]
    detect_candidates_example
  by (simp add: default_loop_config_def)

section \<open>Properties of the minimum-spacing filters\<close>

lemma norm2_x_axis: "norm2 (x, 0) = \<bar>x\<bar>"
  by simp

lemma filter_by_distance_loop_append:
  "filter_by_distance_loop s filtered (xs @ ys) =
     filter_by_distance_loop s (filter_by_distance_loop s filtered xs) ys"
  by (induction xs arbitrary: filtered) (simp_all add: Let_def)

lemma filter_by_distance_loop_spaced:
  assumes "filtered \<noteq> []"
    and "successively (\<lambda>a b. s \<le> norm2 (sub2 (xy b) (xy a))) filtered"
  shows "successively (\<lambda>a b. s \<le> norm2 (sub2 (xy b) (xy a)))
           (filter_by_distance_loop s filtered rest)"
  using assms
  by (induction rest arbitrary: filtered) (auto simp: Let_def successively_append_iff)


lemma filter_by_distance_snoc:
  assumes "xs \<noteq> []"
  shows "filter_by_distance cfg (xs @ [p]) =
     (let kept = filter_by_distance cfg xs
      in if min_distance cfg \<le> norm2 (sub2 (xy p) (xy (last kept))) then kept @ [p] else kept)"
  using assms
  by (cases xs) (simp_all add: filter_by_distance_def filter_by_distance_loop_append Let_def)

lemma spacing_loop_spaced:
  assumes "waypoints \<noteq> []"
    and "successively (\<lambda>a b. s \<le> norm2 (sub2 b a)) waypoints"
  shows "successively (\<lambda>a b. s \<le> norm2 (sub2 b a)) (spacing_loop s waypoints rest)"
  using assms
  by (induction rest arbitrary: waypoints) (auto simp: Let_def successively_append_iff)

lemma spacing_loop_prefix: "\<exists>ys. spacing_loop s waypoints rest = waypoints @ ys"
proof (induction rest arbitrary: waypoints)
  case Nil
  then show ?case by simp
next
  case (Cons p rest)
  from Cons [of "waypoints @ [p]"] Cons [of waypoints] show ?case
    by (auto simp: Let_def)
qed

lemma spacing_loop_nonempty: "waypoints \<noteq> [] \<Longrightarrow> spacing_loop s waypoints rest \<noteq> []"
  using spacing_loop_prefix [of s waypoints rest] by auto

lemma sorted_ids_nonempty:
  assumes "finite (dom poses)" "poses \<noteq> Map.empty"
  shows "sorted_list_of_set (dom poses) \<noteq> []"
  using assms by (simp add: sorted_list_of_set_eq_Nil_iff)

lemma successively_nth_map_xy:
  assumes "successively (\<lambda>a b. s \<le> norm2 (sub2 (xy b) (xy a))) ps" "Suc i < length ps"
  shows "s \<le> norm2 (sub2 (map xy ps ! Suc i) (map xy ps ! i))"
  using assms by (simp add: successively_conv_nth)

lemma waypoint_extract_spaced:
  assumes "\<not> simplify cfg" "z_threshold cfg = None" "finite (dom poses)"
  shows "\<exists>ws. waypoint_extract depth cfg poses = Some ws \<and>
          (\<forall>i. Suc i < length ws \<longrightarrow> min_distance cfg \<le> norm2 (sub2 (ws ! Suc i) (ws ! i)))"
proof (cases "poses = Map.empty")
  case True
  then show ?thesis by (simp add: waypoint_extract_def)
next
  case False
  define positions
    where "positions = map (\<lambda>i. translation (the (poses i))) (sorted_list_of_set (dom poses))"
  have ne: "positions \<noteq> []"
    using sorted_ids_nonempty [OF assms(3) False] by (simp add: positions_def)
  have res: "waypoint_extract depth cfg poses = Some (map xy (filter_by_distance cfg positions))"
    using False assms(1,2) by (simp add: waypoint_extract_def positions_def Let_def)
  have "successively (\<lambda>a b. min_distance cfg \<le> norm2 (sub2 (xy b) (xy a)))
          (filter_by_distance cfg positions)"
    using ne by (simp add: filter_by_distance_def filter_by_distance_loop_spaced)
  then show ?thesis
    unfolding res using successively_nth_map_xy by auto
qed

lemma extract_waypoints_spaced:
  assumes "\<not> simplify_op self"
  shows "\<exists>ws. extract_waypoints depth self = Some ws \<and>
          (\<forall>i. Suc i < length ws \<longrightarrow>
             min_spacing self \<le> norm2 (sub2 (ws ! Suc i) (ws ! i)) \<or>
             (Suc (Suc i) = length ws \<and>
              ws ! Suc i = last (map translation_xy (op_poses self)) \<and>
              1 / 10 < norm2 (sub2 (ws ! Suc i) (ws ! i))))"
proof (cases "op_poses self = []")
  case True
  then show ?thesis by (simp add: extract_waypoints_def)
next
  case False
  define trajectory where "trajectory = map translation_xy (op_poses self)"
  define base where "base = spacing_loop (min_spacing self) [hd trajectory] (tl trajectory)"
  have base_ne: "base \<noteq> []"
    by (simp add: base_def spacing_loop_nonempty)
  have base_ok: "successively (\<lambda>a b. min_spacing self \<le> norm2 (sub2 b a)) base"
    by (simp add: base_def spacing_loop_spaced)
  show ?thesis
  proof (cases "1 / 10 < norm2 (sub2 (last trajectory) (last base))")
    case far: True
    let ?ws = "base @ [last trajectory]"
    have res: "extract_waypoints depth self = Some ?ws"
      using False assms base_ne far
      by (simp add: extract_waypoints_def Let_def trajectory_def base_def)
    have "min_spacing self \<le> norm2 (sub2 (?ws ! Suc i) (?ws ! i)) \<or>
             (Suc (Suc i) = length ?ws \<and> ?ws ! Suc i = last trajectory \<and>
              1 / 10 < norm2 (sub2 (?ws ! Suc i) (?ws ! i)))"
      if "Suc i < length ?ws" for i
    proof (cases "Suc i < length base")
      case True
      then show ?thesis
        using base_ok by (simp add: successively_conv_nth nth_append)
    next
      case False
      with that have i: "Suc i = length base" by simp
      then have "i = length base - 1" by simp
      then have "?ws ! i = last base"
        using base_ne by (simp add: nth_append last_conv_nth)
      moreover have "?ws ! Suc i = last trajectory"
        using i by (simp add: nth_append)
      ultimately show ?thesis using far i by simp
    qed
    then show ?thesis unfolding res trajectory_def by blast
  next
    case near: False
    have res: "extract_waypoints depth self = Some base"
      using False assms base_ne near
      by (simp add: extract_waypoints_def Let_def trajectory_def base_def)
    show ?thesis unfolding res using base_ok by (simp add: successively_conv_nth)
  qed
qed

text \<open>
  Claim C7, as the code has it.  With Douglas-Peucker simplification off and the Z-band
  filter disabled, every two consecutive waypoints returned by
  \<^verbatim>\<open>WaypointExtractor.extract\<close> are at least the minimum spacing apart.  In the
  operator's \<^verbatim>\<open>_extract_waypoints\<close> the same holds for every consecutive pair except
  possibly the final one: the trajectory's last position is appended whenever it is
  more than 0.1 from the last kept waypoint, whatever the minimum spacing.  The filter
  keeps the first position and thereafter keeps a candidate exactly when its distance
  to the last kept position is at least the minimum spacing.
\<close>

theorem min_spacing_without_simplification:
  assumes "\<not> simplify cfg" and "z_threshold cfg = None" and "finite (dom poses)"
    and "\<not> simplify_op self"
  shows "(\<exists>ws. waypoint_extract depth cfg poses = Some ws \<and>
            (\<forall>i. Suc i < length ws \<longrightarrow>
               min_distance cfg \<le> norm2 (sub2 (ws ! Suc i) (ws ! i)))) \<and>
         (\<exists>ws. extract_waypoints depth self = Some ws \<and>
            (\<forall>i. Suc i < length ws \<longrightarrow>
               min_spacing self \<le> norm2 (sub2 (ws ! Suc i) (ws ! i)) \<or>
               (Suc (Suc i) = length ws \<and>
                ws ! Suc i = last (map translation_xy (op_poses self)) \<and>
                1 / 10 < norm2 (sub2 (ws ! Suc i) (ws ! i))))) \<and>
         filter_by_distance cfg [p] = [p] \<and>
         (\<forall>xs q. xs \<noteq> [] \<longrightarrow>
            filter_by_distance cfg (xs @ [q]) =
              (if min_distance cfg \<le> norm2 (sub2 (xy q) (xy (last (filter_by_distance cfg xs))))
               then filter_by_distance cfg xs @ [q] else filter_by_distance cfg xs))"
proof (intro conjI allI impI)
  show "\<exists>ws. waypoint_extract depth cfg poses = Some ws \<and>
            (\<forall>i. Suc i < length ws \<longrightarrow>
               min_distance cfg \<le> norm2 (sub2 (ws ! Suc i) (ws ! i)))"
    using assms(1-3) by (rule waypoint_extract_spaced)
  show "\<exists>ws. extract_waypoints depth self = Some ws \<and>
            (\<forall>i. Suc i < length ws \<longrightarrow>
               min_spacing self \<le> norm2 (sub2 (ws ! Suc i) (ws ! i)) \<or>
               (Suc (Suc i) = length ws \<and>
                ws ! Suc i = last (map translation_xy (op_poses self)) \<and>
                1 / 10 < norm2 (sub2 (ws ! Suc i) (ws ! i))))"
    using assms(4) by (rule extract_waypoints_spaced)
  show "filter_by_distance cfg [p] = [p]"
    by (simp add: filter_by_distance_def)
  show "filter_by_distance cfg (xs @ [q]) =
              (if min_distance cfg \<le> norm2 (sub2 (xy q) (xy (last (filter_by_distance cfg xs))))
               then filter_by_distance cfg xs @ [q] else filter_by_distance cfg xs)"
    if "xs \<noteq> []" for xs q
    using filter_by_distance_snoc [OF that] by (simp add: Let_def)
qed

text \<open>
  The operator with its default spacing 0.5 on a trajectory of two poses 0.3 apart:
  both positions are returned, closer together than the minimum spacing.
\<close>

theorem min_spacing_operator_counterexample:
  "extract_waypoints 0
     \<lparr> min_spacing = 1 / 2, simplify_op = False, epsilon = 1 / 10,
       op_poses = [eye4, translate (3 / 10, 0, 0)] \<rparr> = Some [(0, 0), (3 / 10, 0)]
   \<and> norm2 (sub2 (3 / 10, 0) (0, 0)) < 1 / 2"
  by (simp add: extract_waypoints_def eye4_def Let_def norm2_x_axis del: norm2.simps)

text \<open>
  The theorem at the default extractor with simplification switched off, on the two
  poses 0 and 1 one metre apart, and at the operator of the counterexample.
\<close>

theorem min_spacing_without_simplification_witness:
  "\<not> simplify (default_waypoint_config \<lparr> simplify := False \<rparr>) \<and>
   z_threshold (default_waypoint_config \<lparr> simplify := False \<rparr>) = None \<and>
   finite (dom [0 \<mapsto> eye4, (1::int) \<mapsto> translate (1, 0, 0)]) \<and>
   \<not> simplify_op \<lparr> min_spacing = 1 / 2, simplify_op = False, epsilon = 1 / 10,
        op_poses = [eye4, translate (3 / 10, 0, 0)] \<rparr> \<and>
   (\<exists>ws. waypoint_extract 0 (default_waypoint_config \<lparr> simplify := False \<rparr>)
            [0 \<mapsto> eye4, 1 \<mapsto> translate (1, 0, 0)] = Some ws \<and>
      (\<forall>i. Suc i < length ws \<longrightarrow> 1 / 2 \<le> norm2 (sub2 (ws ! Suc i) (ws ! i))))"
  using min_spacing_without_simplification
    [of "default_waypoint_config \<lparr> simplify := False \<rparr>"
        "[0 \<mapsto> eye4, 1 \<mapsto> translate (1, 0, 0)]"
        "\<lparr> min_spacing = 1 / 2, simplify_op = False, epsilon = 1 / 10,
           op_poses = [eye4, translate (3 / 10, 0, 0)] \<rparr>" 0]
  by (simp add: default_waypoint_config_def)

section \<open>Properties of the ICP odometry\<close>

lemma norm3_x_axis: "norm3 (x, 0, 0) = \<bar>x\<bar>"
  by simp

lemma validate_pose_cases:
  assumes "validate_pose threshold ps T_abs fit = (T', fit')"
  shows "(norm3 (sub3 (translation T_abs) (translation (last ps))) > threshold \<and>
            T' = motion_model ps \<and> fit' = 0) \<or>
         (norm3 (sub3 (translation T_abs) (translation (last ps))) \<le> threshold \<and>
            T' = T_abs \<and> fit' = fit)"
  using assms by (auto simp: validate_pose_def Let_def split: if_splits)

lemma motion_model_two:
  assumes "2 \<le> length ps"
  shows "rotation (motion_model ps) = rotation (last ps) \<and>
         bottom_row (motion_model ps) = bottom_row (last ps) \<and>
         translation (motion_model ps) =
           add3 (translation (last ps))
                (sub3 (translation (last ps)) (translation (ps ! (length ps - 2))))"
proof -
  have "rotation (add_translation T v) = rotation T \<and>
        bottom_row (add_translation T v) = bottom_row T \<and>
        translation (add_translation T v) = add3 (translation T) v" for T v
    by (cases "(T, v)" rule: add_translation.cases) simp
  then show ?thesis using assms by (simp add: motion_model_def Let_def)
qed

lemma add_translation_left_compose:
  assumes "bottom_row T = (0, 0, 0, 1)"
  shows "add_translation T v = matmul (translate v) T"
  using assms by (cases "(T, v)" rule: add_translation.cases) simp

lemma seq_iteration_jump:
  assumes "1 / 4 * 3 < norm3 (sub3
      (translation (matmul (icp_transformation (seq_registration o3d ulm w pcs ps wc i)) (last ps)))
      (translation (last ps)))"
  shows "seq_iteration o3d ulm w pcs (ps, wc) i =
     ((ps @ [motion_model ps], wc @ [map (transform_point (motion_model ps)) (pcs ! i)]), 0)"
  using assms by (simp add: seq_iteration_def validate_pose_def Let_def)

lemma register_frame_jump:
  assumes "icp_frame_count self \<noteq> 0" and "local_map self \<noteq> []"
    and "3 / 4 < norm3 (sub3
      (translation (matmul (icp_transformation (op_registration o3d self points))
         (last (icp_poses self))))
      (translation (last (icp_poses self))))"
  shows "snd (register_frame o3d self points) =
     (motion_model (icp_poses self), 0, icp_inlier_rmse (op_registration o3d self points))"
  using assms by (simp add: register_frame_def validate_pose_def Let_def)

lemma seq_iteration_step:
  obtains T fit W where
    "seq_iteration o3d ulm w pcs (ps, wc) i = ((ps @ [T], W), fit)"
    "norm3 (sub3 (translation T) (translation (last ps))) \<le> 3 / 4 \<or>
       (fit = 0 \<and> T = motion_model ps)"
proof -
  define cand
    where "cand = matmul (icp_transformation (seq_registration o3d ulm w pcs ps wc i)) (last ps)"
  define f where "f = icp_fitness (seq_registration o3d ulm w pcs ps wc i)"
  obtain T fit where v: "validate_pose (1 / 4 * 3) ps cand f = (T, fit)"
    by (cases "validate_pose (1 / 4 * 3) ps cand f")
  have "seq_iteration o3d ulm w pcs (ps, wc) i =
          ((ps @ [T], wc @ [map (transform_point T) (pcs ! i)]), fit)"
    using v by (simp add: seq_iteration_def Let_def cand_def f_def)
  moreover have "norm3 (sub3 (translation T) (translation (last ps))) \<le> 3 / 4 \<or>
       (fit = 0 \<and> T = motion_model ps)"
    using validate_pose_cases [OF v] by auto
  ultimately show thesis using that by blast
qed

lemma seq_loop_invariant:
  assumes "seq_loop o3d ulm w pcs (ps, wc) idxs = ((P, W), fits)" and "ps \<noteq> []"
  shows "length P = length ps + length idxs \<and> take (length ps) P = ps \<and>
         length fits = length idxs \<and>
         (\<forall>k < length idxs.
            norm3 (sub3 (translation (P ! (length ps + k)))
                        (translation (P ! (length ps + k - 1)))) \<le> 3 / 4 \<or>
            (fits ! k = 0 \<and> P ! (length ps + k) = motion_model (take (length ps + k) P)))"
  using assms
proof (induction idxs arbitrary: ps wc P W fits)
  case Nil
  then show ?case by simp
next
  case (Cons i rest)
  obtain T fit W1 where
    step: "seq_iteration o3d ulm w pcs (ps, wc) i = ((ps @ [T], W1), fit)" and
    ok: "norm3 (sub3 (translation T) (translation (last ps))) \<le> 3 / 4 \<or>
           (fit = 0 \<and> T = motion_model ps)"
    by (rule seq_iteration_step)
  obtain fits' where
    rest: "seq_loop o3d ulm w pcs (ps @ [T], W1) rest = ((P, W), fits')" and
    fits: "fits = fit # fits'"
    using Cons.prems(1) step by (auto split: prod.splits)
  have ih: "length P = length (ps @ [T]) + length rest \<and>
         take (length (ps @ [T])) P = ps @ [T] \<and> length fits' = length rest \<and>
         (\<forall>k < length rest.
            norm3 (sub3 (translation (P ! (length (ps @ [T]) + k)))
                        (translation (P ! (length (ps @ [T]) + k - 1)))) \<le> 3 / 4 \<or>
            (fits' ! k = 0 \<and>
             P ! (length (ps @ [T]) + k) = motion_model (take (length (ps @ [T]) + k) P)))"
    by (rule Cons.IH [OF rest]) simp
  have len: "length P = length ps + length (i # rest)"
    using ih by simp
  have tk1: "take (Suc (length ps)) P = ps @ [T]"
    using ih by simp
  have tk: "take (length ps) P = ps"
  proof -
    have "take (length ps) (take (Suc (length ps)) P) = take (length ps) (ps @ [T])"
      by (simp only: tk1)
    then show ?thesis by (simp add: min_def)
  qed
  have at: "P ! length ps = T"
  proof -
    have "take (Suc (length ps)) P ! length ps = (ps @ [T]) ! length ps"
      by (simp only: tk1)
    then show ?thesis by simp
  qed
  have before: "P ! (length ps - 1) = last ps"
  proof -
    have "take (length ps) P ! (length ps - 1) = ps ! (length ps - 1)"
      by (simp only: tk)
    then show ?thesis using Cons.prems(2) by (simp add: last_conv_nth)
  qed
  have all: "norm3 (sub3 (translation (P ! (length ps + k)))
                        (translation (P ! (length ps + k - 1)))) \<le> 3 / 4 \<or>
            (fits ! k = 0 \<and> P ! (length ps + k) = motion_model (take (length ps + k) P))"
    if "k < length (i # rest)" for k
  proof (cases k)
    case 0
    then show ?thesis using ok at before tk fits by simp
  next
    case (Suc k')
    with that have "k' < length rest" by simp
    with ih have "norm3 (sub3 (translation (P ! (length (ps @ [T]) + k')))
                        (translation (P ! (length (ps @ [T]) + k' - 1)))) \<le> 3 / 4 \<or>
            (fits' ! k' = 0 \<and>
             P ! (length (ps @ [T]) + k') = motion_model (take (length (ps @ [T]) + k') P))"
      by blast
    then show ?thesis using Suc fits by simp
  qed
  show ?case using len tk fits ih all by simp
qed

lemma run_on_sequence_bounded:
  assumes "pcs \<noteq> []"
  shows "\<exists>W fits.
           seq_loop o3d ulm w pcs ([eye4], [pcs ! 0]) [1..<length pcs] =
             ((run_on_sequence o3d pcs ulm w, W), fits) \<and>
           length (run_on_sequence o3d pcs ulm w) = length pcs \<and>
           length fits = length pcs - 1 \<and>
           (\<forall>i. 1 \<le> i \<and> i < length pcs \<longrightarrow>
              norm3 (sub3 (translation (run_on_sequence o3d pcs ulm w ! i))
                          (translation (run_on_sequence o3d pcs ulm w ! (i - 1)))) \<le> 3 * (1 / 4) \<or>
              (fits ! (i - 1) = 0 \<and>
               run_on_sequence o3d pcs ulm w ! i =
                 motion_model (take i (run_on_sequence o3d pcs ulm w))))"
proof -
  obtain P W fits where
    run: "seq_loop o3d ulm w pcs ([eye4], [pcs ! 0]) [1..<length pcs] = ((P, W), fits)"
    by (metis surj_pair)
  have res: "run_on_sequence o3d pcs ulm w = P"
    using assms run by (simp add: run_on_sequence_def Let_def)
  have inv: "length P = length [eye4] + length [1..<length pcs] \<and>
         take (length [eye4]) P = [eye4] \<and> length fits = length [1..<length pcs] \<and>
         (\<forall>k < length [1..<length pcs].
            norm3 (sub3 (translation (P ! (length [eye4] + k)))
                        (translation (P ! (length [eye4] + k - 1)))) \<le> 3 / 4 \<or>
            (fits ! k = 0 \<and>
             P ! (length [eye4] + k) = motion_model (take (length [eye4] + k) P)))"
    by (rule seq_loop_invariant [OF run]) simp
  have "0 < length pcs"
    using assms by simp
  then have len: "length P = length pcs"
    using inv by simp
  have "norm3 (sub3 (translation (P ! i)) (translation (P ! (i - 1)))) \<le> 3 * (1 / 4) \<or>
          (fits ! (i - 1) = 0 \<and> P ! i = motion_model (take i P))"
    if "1 \<le> i \<and> i < length pcs" for i
  proof -
    from that have "i - 1 < length [1..<length pcs]" by auto
    with inv have "norm3 (sub3 (translation (P ! (length [eye4] + (i - 1))))
                        (translation (P ! (length [eye4] + (i - 1) - 1)))) \<le> 3 / 4 \<or>
            (fits ! (i - 1) = 0 \<and>
             P ! (length [eye4] + (i - 1)) = motion_model (take (length [eye4] + (i - 1)) P))"
      by blast
    then show ?thesis using that by simp
  qed
  then show ?thesis using run len inv unfolding res by auto
qed

lemma register_frame_step:
  assumes "icp_frame_count self \<noteq> 0" and "icp_poses self \<noteq> []"
    and "register_frame o3d self points = (self', pose, fit, rmse)"
  shows "last (icp_poses self') = pose \<and>
         (norm3 (sub3 (translation pose) (translation (last (icp_poses self)))) \<le> 3 / 4 \<or>
          (fit = 0 \<and> pose = motion_model (icp_poses self)))"
proof (cases "local_map self = []")
  case True
  then have "self' = self" "pose = last (icp_poses self)"
    using assms by (auto simp: register_frame_def)
  moreover have "norm3 (sub3 (translation p) (translation p)) = 0" for p
    by (cases p rule: translation.cases) simp
  ultimately show ?thesis by simp
next
  case False
  define cand where
    "cand = matmul (icp_transformation (op_registration o3d self points)) (last (icp_poses self))"
  obtain T f where v: "validate_pose (3 / 4) (icp_poses self) cand
      (icp_fitness (op_registration o3d self points)) = (T, f)"
    by (cases "validate_pose (3 / 4) (icp_poses self) cand
      (icp_fitness (op_registration o3d self points))")
  have "pose = T" "fit = f" "icp_poses self' = icp_poses self @ [T]"
    using assms False v by (auto simp: register_frame_def Let_def cand_def)
  then show ?thesis using validate_pose_cases [OF v] by auto
qed

text \<open>
  Claim C1, as the code has it.  In both odometry functions, when the translation jump
  of the candidate pose against the previous pose exceeds 3 * 0.25 = 0.75, the candidate
  is rejected: the pose stored and returned is the motion-model pose and the fitness is
  0.  With two poses or more the motion-model pose is the previous pose with its
  rotation unchanged and the last translation step added to its translation column,
  which for a pose with bottom row (0, 0, 0, 1) is the translation by that step composed
  on the left of the previous pose; with fewer than two poses it is the previous pose.
\<close>

theorem implausible_jump_uses_motion_model:
  assumes "1 / 4 * 3 < norm3 (sub3
      (translation (matmul (icp_transformation (seq_registration o3d ulm w pcs ps wc i)) (last ps)))
      (translation (last ps)))"
    and "icp_frame_count self \<noteq> 0" and "local_map self \<noteq> []"
    and "3 / 4 < norm3 (sub3
      (translation (matmul (icp_transformation (op_registration o3d self points))
         (last (icp_poses self))))
      (translation (last (icp_poses self))))"
  shows "seq_iteration o3d ulm w pcs (ps, wc) i =
           ((ps @ [motion_model ps], wc @ [map (transform_point (motion_model ps)) (pcs ! i)]), 0) \<and>
         snd (register_frame o3d self points) =
           (motion_model (icp_poses self), 0, icp_inlier_rmse (op_registration o3d self points)) \<and>
         (\<forall>qs. 2 \<le> length qs \<longrightarrow>
            rotation (motion_model qs) = rotation (last qs) \<and>
            translation (motion_model qs) =
              add3 (translation (last qs))
                   (sub3 (translation (last qs)) (translation (qs ! (length qs - 2)))) \<and>
            (bottom_row (last qs) = (0, 0, 0, 1) \<longrightarrow>
               motion_model qs =
                 matmul (translate (sub3 (translation (last qs))
                                         (translation (qs ! (length qs - 2))))) (last qs))) \<and>
         (\<forall>qs. length qs < 2 \<longrightarrow> motion_model qs = last qs)"
proof (intro conjI allI impI)
  show "seq_iteration o3d ulm w pcs (ps, wc) i =
           ((ps @ [motion_model ps], wc @ [map (transform_point (motion_model ps)) (pcs ! i)]), 0)"
    using assms(1) by (rule seq_iteration_jump)
  show "snd (register_frame o3d self points) =
           (motion_model (icp_poses self), 0, icp_inlier_rmse (op_registration o3d self points))"
    using assms(2-4) by (rule register_frame_jump)
next
  fix qs :: "mat4 list"
  assume "2 \<le> length qs"
  then show "rotation (motion_model qs) = rotation (last qs)"
    and "translation (motion_model qs) =
              add3 (translation (last qs))
                   (sub3 (translation (last qs)) (translation (qs ! (length qs - 2))))"
    using motion_model_two by blast+
next
  fix qs :: "mat4 list"
  assume "2 \<le> length qs" "bottom_row (last qs) = (0, 0, 0, 1)"
  then show "motion_model qs =
                 matmul (translate (sub3 (translation (last qs))
                                         (translation (qs ! (length qs - 2))))) (last qs)"
    by (simp add: motion_model_def Let_def add_translation_left_compose)
next
  fix qs :: "mat4 list"
  assume "length qs < 2"
  then show "motion_model qs = last qs"
    by (simp add: motion_model_def)
qed

text \<open>
  The theorem at a registration that proposes a 5 m correction after the poses at
  x = 0 and x = 0.5: the fallback continues the 0.5 m step to x = 1 with fitness 0.
\<close>

theorem implausible_jump_uses_motion_model_witness:
  "1 / 4 * 3 < norm3 (sub3
      (translation (matmul (icp_transformation (seq_registration
         (constant_open3d \<lparr> icp_transformation = translate (5, 0, 0), icp_fitness = 1,
            icp_inlier_rmse = 0 \<rparr>)
         True 5 [[(1, 0, 0)], [(1, 0, 0)], [(1, 0, 0)]]
         [eye4, translate (1 / 2, 0, 0)] [[(1, 0, 0)], [(3 / 2, 0, 0)]] 2))
         (last [eye4, translate (1 / 2, 0, 0)])))
      (translation (last [eye4, translate (1 / 2, 0, 0)]))) \<and>
   seq_iteration
      (constant_open3d \<lparr> icp_transformation = translate (5, 0, 0), icp_fitness = 1,
         icp_inlier_rmse = 0 \<rparr>)
      True 5 [[(1, 0, 0)], [(1, 0, 0)], [(1, 0, 0)]]
      ([eye4, translate (1 / 2, 0, 0)], [[(1, 0, 0)], [(3 / 2, 0, 0)]]) 2 =
     (([eye4, translate (1 / 2, 0, 0), translate (1, 0, 0)],
       [[(1, 0, 0)], [(3 / 2, 0, 0)], [(2, 0, 0)]]), 0) \<and>
   icp_frame_count \<lparr> icp_poses = [eye4, translate (1 / 2, 0, 0)],
       icp_world_clouds = [[(1, 0, 0)], [(3 / 2, 0, 0)]], icp_window_size = 5,
       icp_frame_count = 2 \<rparr> \<noteq> 0 \<and>
   local_map \<lparr> icp_poses = [eye4, translate (1 / 2, 0, 0)],
       icp_world_clouds = [[(1, 0, 0)], [(3 / 2, 0, 0)]], icp_window_size = 5,
       icp_frame_count = 2 \<rparr> \<noteq> [] \<and>
   snd (register_frame
      (constant_open3d \<lparr> icp_transformation = translate (5, 0, 0), icp_fitness = 1,
         icp_inlier_rmse = 0 \<rparr>)
      \<lparr> icp_poses = [eye4, translate (1 / 2, 0, 0)],
        icp_world_clouds = [[(1, 0, 0)], [(3 / 2, 0, 0)]], icp_window_size = 5,
        icp_frame_count = 2 \<rparr>
      [(1, 0, 0)]) = (translate (1, 0, 0), 0, 0)"
  using implausible_jump_uses_motion_model
    [where o3d = "constant_open3d \<lparr> icp_transformation = translate (5, 0, 0), icp_fitness = 1,
         icp_inlier_rmse = 0 \<rparr>"
       and ulm = True and w = 5 and pcs = "[[(1, 0, 0)], [(1, 0, 0)], [(1, 0, 0)]]"
       and ps = "[eye4, translate (1 / 2, 0, 0)]" and wc = "[[(1, 0, 0)], [(3 / 2, 0, 0)]]"
       and i = 2
       and self = "\<lparr> icp_poses = [eye4, translate (1 / 2, 0, 0)],
        icp_world_clouds = [[(1, 0, 0)], [(3 / 2, 0, 0)]], icp_window_size = 5,
        icp_frame_count = 2 \<rparr>"
       and points = "[(1, 0, 0)]"]
  by (simp add: seq_registration_def op_registration_def local_map_def constant_open3d_def
      motion_model_def eye4_def Let_def norm3_x_axis del: norm3.simps)

text \<open>
  The operator after an identity pose and a pose turned by 90 degrees about z at
  x = 0.5, with a registration that proposes a 5 m correction.  The fallback keeps the
  rotation and moves the translation to x = 1; the previous pose composed on the right
  with the translation by the last step has translation (0.5, 0.5, 0) instead.
\<close>

theorem motion_model_right_composition_counterexample:
  "snd (register_frame
     (constant_open3d \<lparr> icp_transformation = translate (5, 0, 0), icp_fitness = 1,
        icp_inlier_rmse = 0 \<rparr>)
     \<lparr> icp_poses = [eye4, ((0, -1, 0, 1 / 2), (1, 0, 0, 0), (0, 0, 1, 0), (0, 0, 0, 1))],
       icp_world_clouds = [[(1, 0, 0)], [(1, 0, 0)]], icp_window_size = 5,
       icp_frame_count = 2 \<rparr>
     [(1, 0, 0)]) = (((0, -1, 0, 1), (1, 0, 0, 0), (0, 0, 1, 0), (0, 0, 0, 1)), 0, 0) \<and>
   matmul ((0, -1, 0, 1 / 2), (1, 0, 0, 0), (0, 0, 1, 0), (0, 0, 0, 1))
     (translate (sub3 (translation ((0, -1, 0, 1 / 2), (1, 0, 0, 0), (0, 0, 1, 0), (0, 0, 0, 1)))
                      (translation eye4))) =
     ((0, -1, 0, 1 / 2), (1, 0, 0, 1 / 2), (0, 0, 1, 0), (0, 0, 0, 1))"
  by (simp add: register_frame_def local_map_def op_registration_def constant_open3d_def
      validate_pose_def motion_model_def eye4_def Let_def norm3_x_axis del: norm3.simps)

text \<open>
  Claim C2.  For every frame after the first, the translation change from the previous
  pose is at most 3 * 0.25 = 0.75, unless the fitness of that frame is 0 and its pose is
  the motion-model pose.  For \<^verbatim>\<open>run_on_sequence\<close> this is stated of the returned list
  of poses and the fitness of each iteration; for the operator, of every call of
  \<^verbatim>\<open>_register_frame\<close> after the first frame, whose returned pose becomes the last
  stored pose.
\<close>

theorem pose_jump_bounded_unless_fallback:
  assumes "pcs \<noteq> []" and "icp_frame_count self \<noteq> 0" and "icp_poses self \<noteq> []"
  shows "(\<exists>W fits.
           seq_loop o3d ulm w pcs ([eye4], [pcs ! 0]) [1..<length pcs] =
             ((run_on_sequence o3d pcs ulm w, W), fits) \<and>
           length (run_on_sequence o3d pcs ulm w) = length pcs \<and>
           length fits = length pcs - 1 \<and>
           (\<forall>i. 1 \<le> i \<and> i < length pcs \<longrightarrow>
              norm3 (sub3 (translation (run_on_sequence o3d pcs ulm w ! i))
                          (translation (run_on_sequence o3d pcs ulm w ! (i - 1)))) \<le> 3 * (1 / 4) \<or>
              (fits ! (i - 1) = 0 \<and>
               run_on_sequence o3d pcs ulm w ! i =
                 motion_model (take i (run_on_sequence o3d pcs ulm w))))) \<and>
         (case register_frame o3d self points of
            (self', pose, fit, rmse) \<Rightarrow>
              last (icp_poses self') = pose \<and>
              (norm3 (sub3 (translation pose) (translation (last (icp_poses self)))) \<le> 3 / 4 \<or>
               (fit = 0 \<and> pose = motion_model (icp_poses self))))"
proof -
  obtain self' pose fit rmse where r: "register_frame o3d self points = (self', pose, fit, rmse)"
    by (metis surj_pair)
  show ?thesis
    using run_on_sequence_bounded [OF assms(1), of o3d ulm w]
      register_frame_step [OF assms(2,3) r]
    unfolding r by simp
qed

text \<open>
  The theorem at three frames with a registration that proposes a 0.5 m step each
  time: every step is accepted.
\<close>

theorem pose_jump_bounded_unless_fallback_witness:
  "[[(1, 0, 0)], [(1, 0, 0)], [(1, 0, 0)]] \<noteq> ([] :: vec3 list list) \<and>
   icp_frame_count \<lparr> icp_poses = [eye4, translate (1 / 2, 0, 0)],
       icp_world_clouds = [[(1, 0, 0)], [(3 / 2, 0, 0)]], icp_window_size = 5,
       icp_frame_count = 2 \<rparr> \<noteq> 0 \<and>
   icp_poses \<lparr> icp_poses = [eye4, translate (1 / 2, 0, 0)],
       icp_world_clouds = [[(1, 0, 0)], [(3 / 2, 0, 0)]], icp_window_size = 5,
       icp_frame_count = 2 \<rparr> \<noteq> [] \<and>
   run_on_sequence
      (constant_open3d \<lparr> icp_transformation = translate (1 / 2, 0, 0), icp_fitness = 1,
         icp_inlier_rmse = 0 \<rparr>)
      [[(1, 0, 0)], [(1, 0, 0)], [(1, 0, 0)]] True 5 =
     [eye4, translate (1 / 2, 0, 0), translate (1, 0, 0)] \<and>
   norm3 (sub3 (translation (translate (1, 0, 0))) (translation (translate (1 / 2, 0, 0))))
     \<le> 3 * (1 / 4) \<and>
   snd (register_frame
      (constant_open3d \<lparr> icp_transformation = translate (1 / 2, 0, 0), icp_fitness = 1,
         icp_inlier_rmse = 0 \<rparr>)
      \<lparr> icp_poses = [eye4, translate (1 / 2, 0, 0)],
        icp_world_clouds = [[(1, 0, 0)], [(3 / 2, 0, 0)]], icp_window_size = 5,
        icp_frame_count = 2 \<rparr>
      [(1, 0, 0)]) = (translate (1, 0, 0), 1, 0)"
  using pose_jump_bounded_unless_fallback
    [where pcs = "[[(1, 0, 0)], [(1, 0, 0)], [(1, 0, 0)]]"
       and o3d = "constant_open3d \<lparr> icp_transformation = translate (1 / 2, 0, 0),
         icp_fitness = 1, icp_inlier_rmse = 0 \<rparr>"
       and ulm = True and w = 5
       and self = "\<lparr> icp_poses = [eye4, translate (1 / 2, 0, 0)],
        icp_world_clouds = [[(1, 0, 0)], [(3 / 2, 0, 0)]], icp_window_size = 5,
        icp_frame_count = 2 \<rparr>"
       and points = "[(1, 0, 0)]"]
  by (simp add: run_on_sequence_def seq_iteration_def seq_registration_def
      register_frame_def op_registration_def local_map_def constant_open3d_def
      validate_pose_def motion_model_def eye4_def Let_def norm3_x_axis upt_rec
      del: norm3.simps)

text \<open>
  Claim C8, as the code has it.  A \<^verbatim>\<open>pointcloud\<close> input whose array is empty is
  skipped: the operator's state (poses, world clouds, frame counter) is unchanged, and
  neither a pose nor an odometry status is sent, so no fitness is reported.
\<close>

theorem empty_frame_is_skipped:
  "on_event o3d self (Input ''pointcloud'' []) = Inr (self, [], CONTINUE) \<and>
   reported_fitness [] = None"
  by (simp add: on_event_def reported_fitness_def)

text \<open>
  The operator after its first frame receives an empty array: nothing is sent, so the
  fitness reported is not 0.
\<close>

theorem empty_frame_fitness_counterexample:
  "on_event
     (constant_open3d \<lparr> icp_transformation = eye4, icp_fitness = 1, icp_inlier_rmse = 0 \<rparr>)
     \<lparr> icp_poses = [eye4], icp_world_clouds = [[(1, 0, 0)]], icp_window_size = 5,
       icp_frame_count = 1 \<rparr>
     (Input ''pointcloud'' []) =
   Inr (\<lparr> icp_poses = [eye4], icp_world_clouds = [[(1, 0, 0)]], icp_window_size = 5,
         icp_frame_count = 1 \<rparr>, [], CONTINUE) \<and>
   reported_fitness [] \<noteq> Some 0"
  by (simp add: on_event_def reported_fitness_def)

section \<open>Properties of the pose graph\<close>






section \<open>Properties of the Scan Context descriptor\<close>


lemma clip_in_range:
  assumes "0 < n"
  shows "0 \<le> clip a 0 (int n - 1) \<and> clip a 0 (int n - 1) < int n"
  using assms by (auto simp: clip_def)

lemma py_index_clip:
  assumes "0 < n"
  shows "py_index n (clip a 0 (int n - 1)) = Some (nat (clip a 0 (int n - 1))) \<and>
         nat (clip a 0 (int n - 1)) < n"
  using clip_in_range [OF assms, of a] by (auto simp: py_index_def)


lemma bin_of_index:
  assumes "0 < num_rings cfg" "0 < num_sectors cfg"
  shows "py_index (num_rings cfg) (range_idx cfg p) = Some (fst (bin_of cfg p)) \<and>
         py_index (num_sectors cfg) (angle_idx cfg p) = Some (snd (bin_of cfg p)) \<and>
         fst (bin_of cfg p) < num_rings cfg \<and> snd (bin_of cfg p) < num_sectors cfg"
  using py_index_clip [OF assms(1)] py_index_clip [OF assms(2)]
  by (cases p) (simp add: bin_of_def)


lemma Max_insert_max:
  fixes S :: "real set"
  assumes "finite S"
  shows "Max (insert (max x y) S) = Max (insert x (insert y S))"
proof (cases "S = {}")
  case True
  then show ?thesis by simp
next
  case False
  then show ?thesis using assms by (simp add: max.assoc)
qed

lemma descriptor_loop_bins:
  assumes "0 < num_rings cfg" "0 < num_sectors cfg" "well_shaped cfg d0"
  shows "\<exists>d. descriptor_loop cfg points d0 = Inr d \<and> well_shaped cfg d \<and>
     (\<forall>r < num_rings cfg. \<forall>a < num_sectors cfg.
        d ! r ! a = Max (insert (d0 ! r ! a) (zcoord ` {p \<in> set points. bin_of cfg p = (r, a)})))"
  using assms(3)
proof (induction points arbitrary: d0)
  case Nil
  then show ?case by simp
next
  case (Cons p rest)
  obtain r0 a0 where b: "bin_of cfg p = (r0, a0)" by (cases "bin_of cfg p")
  have idx: "py_index (num_rings cfg) (range_idx cfg p) = Some r0"
      "py_index (num_sectors cfg) (angle_idx cfg p) = Some a0"
      "r0 < num_rings cfg" "a0 < num_sectors cfg"
    using bin_of_index [OF assms(1,2), of p] b by simp_all
  define d1 where "d1 = d0 [r0 := (d0 ! r0) [a0 := max (d0 ! r0 ! a0) (zcoord p)]]"
  have step: "descriptor_loop cfg (p # rest) d0 = descriptor_loop cfg rest d1"
    by (simp add: idx d1_def)
  have ws: "well_shaped cfg d1"
    using Cons.prems idx(3)
    by (auto simp: well_shaped_def d1_def nth_list_update)
  have d1_at: "d1 ! r ! a = (if r = r0 \<and> a = a0 then max (d0 ! r ! a) (zcoord p) else d0 ! r ! a)"
    if "r < num_rings cfg" "a < num_sectors cfg" for r a
    using that Cons.prems idx(3,4) by (auto simp: well_shaped_def d1_def nth_list_update)
  from Cons.IH [OF ws] obtain d where
    r: "descriptor_loop cfg rest d1 = Inr d" and wsd: "well_shaped cfg d" and
    v: "\<forall>r < num_rings cfg. \<forall>a < num_sectors cfg.
        d ! r ! a = Max (insert (d1 ! r ! a) (zcoord ` {p \<in> set rest. bin_of cfg p = (r, a)}))"
    by blast
  have "d ! r ! a = Max (insert (d0 ! r ! a)
          (zcoord ` {q \<in> set (p # rest). bin_of cfg q = (r, a)}))"
    if ra: "r < num_rings cfg" "a < num_sectors cfg" for r a
  proof -
    let ?S = "(zcoord ` {q \<in> set rest. bin_of cfg q = (r, a)})"
    have fin: "finite ?S" by simp
    have dv: "d ! r ! a = Max (insert (d1 ! r ! a) ?S)"
      using v ra by blast
    show ?thesis
    proof (cases "r = r0 \<and> a = a0")
      case True
      then have "(zcoord ` {q \<in> set (p # rest). bin_of cfg q = (r, a)}) = insert (zcoord p) ?S"
        using b by auto
      moreover have "d1 ! r ! a = max (d0 ! r ! a) (zcoord p)"
        using d1_at [OF ra] True by simp
      ultimately show ?thesis using dv Max_insert_max [OF fin] by simp
    next
      case False
      then have "(zcoord ` {q \<in> set (p # rest). bin_of cfg q = (r, a)}) = ?S"
        using b by auto
      moreover have "d1 ! r ! a = d0 ! r ! a"
        using d1_at [OF ra] False by simp
      ultimately show ?thesis using dv by simp
    qed
  qed
  then show ?case using step r wsd by simp
qed


lemma compute_descriptor_bins:
  assumes "0 < num_rings cfg" "0 < num_sectors cfg"
  shows "\<exists>d. compute_descriptor cfg points = Inr d \<and> well_shaped cfg d \<and>
     (\<forall>r < num_rings cfg. \<forall>a < num_sectors cfg.
        d ! r ! a = Max (insert 0 (zcoord ` {p \<in> set points. bin_of cfg p = (r, a)})))"
proof -
  let ?z = "replicate (num_rings cfg) (replicate (num_sectors cfg) (0::real))"
  have ws: "well_shaped cfg ?z"
    by (simp add: well_shaped_def)
  from descriptor_loop_bins [OF assms ws, of points] obtain d where
    "descriptor_loop cfg points ?z = Inr d" "well_shaped cfg d"
    "\<forall>r < num_rings cfg. \<forall>a < num_sectors cfg.
        d ! r ! a = Max (insert (?z ! r ! a) (zcoord ` {p \<in> set points. bin_of cfg p = (r, a)}))"
    by blast
  then show ?thesis
    by (intro exI [of _ d]) (simp add: compute_descriptor_def)
qed

lemma replicate_update_same: "(replicate n x) [i := x] = replicate n x"
  by (induction n arbitrary: i) (auto split: nat.split)

lemma bin_ex: "bin_of default_scan_context_config (1, 0, - 1) = (0, 30)"
  by (simp add: bin_of_def default_scan_context_config_def arctan2_def astype_int_def clip_def)

text \<open>
  What the code computes.  For a grid of at least one ring and one sector, every point
  falls in a bin of the grid, and each bin of the descriptor is the maximum of 0 and the
  z coordinates of the points falling in it: the descriptor starts from zeros and each
  point replaces its bin by the maximum of the bin and its z.
\<close>

lemma descriptor_bin_is_max_with_zero:
  assumes "0 < num_rings cfg" and "0 < num_sectors cfg"
  shows "\<exists>d. compute_descriptor cfg points = Inr d \<and> length d = num_rings cfg \<and>
     (\<forall>r < num_rings cfg. \<forall>a < num_sectors cfg.
        length (d ! r) = num_sectors cfg \<and>
        d ! r ! a = Max (insert 0 (zcoord ` {p \<in> set points. bin_of cfg p = (r, a)})) \<and>
        ((\<forall>p \<in> set points. bin_of cfg p = (r, a) \<longrightarrow> zcoord p < 0) \<longrightarrow> d ! r ! a = 0)) \<and>
     (\<forall>p \<in> set points.
        fst (bin_of cfg p) < num_rings cfg \<and> snd (bin_of cfg p) < num_sectors cfg)"
proof -
  from compute_descriptor_bins [OF assms, of points] obtain d where
    d: "compute_descriptor cfg points = Inr d" and ws: "well_shaped cfg d" and
    v: "\<forall>r < num_rings cfg. \<forall>a < num_sectors cfg.
        d ! r ! a = Max (insert 0 (zcoord ` {p \<in> set points. bin_of cfg p = (r, a)}))"
    by blast
  have neg: "d ! r ! a = 0"
    if "r < num_rings cfg" "a < num_sectors cfg"
      "\<forall>p \<in> set points. bin_of cfg p = (r, a) \<longrightarrow> zcoord p < 0" for r a
  proof -
    have "Max (insert 0 (zcoord ` {p \<in> set points. bin_of cfg p = (r, a)})) = 0"
      using that(3) by (intro Max_eqI) auto
    then show ?thesis using v that(1,2) by simp
  qed
  have "fst (bin_of cfg p) < num_rings cfg \<and> snd (bin_of cfg p) < num_sectors cfg" for p
    using bin_of_index [OF assms, of p] by simp
  then show ?thesis
    using d ws v neg by (intro exI [of _ d]) (simp add: well_shaped_def)
qed

text \<open>
  Claim C6.  Each bin of the descriptor is to hold the maximum z over the points falling
  in it, also when all of them have negative z (the code's own comment: max height in
  each bin).  The code departs from this at the default grid (60 sectors, 20 rings,
  80 m) on the cloud of the single point (1, 0, -1): the point falls in ring 0 and
  sector 30, the maximum z over the points of that bin is -1, and the descriptor holds
  0 in that bin, as in every other, because it starts from zeros and only ever takes the
  maximum of a bin and a z.
\<close>

theorem descriptor_negative_bin_value:
  "compute_descriptor default_scan_context_config [(1, 0, - 1)] =
     Inr (replicate 20 (replicate 60 0)) \<and>
   bin_of default_scan_context_config (1, 0, - 1) = (0, 30) \<and>
   Max (zcoord ` {p \<in> set [(1, 0, - 1)]. bin_of default_scan_context_config p = (0, 30)}) = - 1 \<and>
   replicate 20 (replicate 60 (0 :: real)) ! 0 ! 30 = 0"
proof -
  have b: "bin_of default_scan_context_config (1, 0, - 1) = (0, 30)"
    by (rule bin_ex)
  have i: "py_index (num_rings default_scan_context_config)
             (range_idx default_scan_context_config (1, 0, - 1)) = Some 0"
      "py_index (num_sectors default_scan_context_config)
             (angle_idx default_scan_context_config (1, 0, - 1)) = Some 30"
    by (simp_all add: default_scan_context_config_def arctan2_def astype_int_def clip_def
        py_index_def)
  have "{p \<in> set [(1, 0, - 1)]. bin_of default_scan_context_config p = (0, 30)} = {(1, 0, - 1)}"
    using b by auto
  then have m: "Max (zcoord ` {p \<in> set [(1, 0, - 1)].
      bin_of default_scan_context_config p = (0, 30)}) = - 1"
    by simp
  have "compute_descriptor default_scan_context_config [(1, 0, - 1)] =
     Inr (replicate 20 (replicate 60 0))"
    unfolding compute_descriptor_def
    by (simp add: i del: range_idx.simps angle_idx.simps)
       (simp add: default_scan_context_config_def replicate_update_same)
  then show ?thesis using b m by simp
qed

section \<open>Properties of the descriptor similarity\<close>


lemma cauchy_schwarz_pair:
  fixes a b c d :: real
  shows "a * c + b * d \<le> sqrt (a ^ 2 + b ^ 2) * sqrt (c ^ 2 + d ^ 2)"
proof -
  have "(a * c + b * d) ^ 2 \<le> (a ^ 2 + b ^ 2) * (c ^ 2 + d ^ 2)"
  proof -
    have "(a ^ 2 + b ^ 2) * (c ^ 2 + d ^ 2) - (a * c + b * d) ^ 2 = (a * d - b * c) ^ 2"
      by (simp add: power2_eq_square algebra_simps)
    moreover have "0 \<le> (a * d - b * c) ^ 2" by simp
    ultimately show ?thesis by linarith
  qed
  then have "sqrt ((a * c + b * d) ^ 2) \<le> sqrt ((a ^ 2 + b ^ 2) * (c ^ 2 + d ^ 2))"
    by (rule real_sqrt_le_mono)
  then have "\<bar>a * c + b * d\<bar> \<le> sqrt (a ^ 2 + b ^ 2) * sqrt (c ^ 2 + d ^ 2)"
    by (simp add: real_sqrt_mult)
  then show ?thesis by linarith
qed

lemma cauchy_schwarz_step:
  fixes A B A1 B1 S t :: real
  assumes "0 \<le> A" "0 \<le> B" "0 \<le> A1" "0 \<le> B1"
    and "S \<le> sqrt A * sqrt B" and "t \<le> sqrt A1 * sqrt B1"
  shows "t + S \<le> sqrt (A1 + A) * sqrt (B1 + B)"
proof -
  have "sqrt A1 * sqrt B1 + sqrt A * sqrt B \<le>
      sqrt ((sqrt A1) ^ 2 + (sqrt A) ^ 2) * sqrt ((sqrt B1) ^ 2 + (sqrt B) ^ 2)"
    by (rule cauchy_schwarz_pair)
  then have "sqrt A1 * sqrt B1 + sqrt A * sqrt B \<le> sqrt (A1 + A) * sqrt (B1 + B)"
    using assms(1-4) by simp
  then show ?thesis using assms(5,6) by linarith
qed

lemma sum_squares_nonneg: "0 \<le> sum_list (map (\<lambda>x. x ^ 2) (xs :: real list))"
  by (induction xs) simp_all

lemma cauchy_schwarz_list:
  fixes xs ys :: "real list"
  shows "sum_list (map2 (*) xs ys) \<le>
     sqrt (sum_list (map (\<lambda>x. x ^ 2) xs)) * sqrt (sum_list (map (\<lambda>x. x ^ 2) ys))"
proof (induction xs arbitrary: ys)
  case Nil
  show ?case by (simp add: sum_squares_nonneg)
next
  case (Cons x xs)
  show ?case
  proof (cases ys)
    case Nil
    then show ?thesis
      using sum_squares_nonneg [of "x # xs"] by simp
  next
    case (Cons y ys')
    have "x * y \<le> sqrt (x ^ 2) * sqrt (y ^ 2)"
      by (simp add: abs_mult [symmetric])
    then have "x * y + sum_list (map2 (*) xs ys') \<le>
       sqrt (x ^ 2 + sum_list (map (\<lambda>x. x ^ 2) xs)) * sqrt (y ^ 2 + sum_list (map (\<lambda>x. x ^ 2) ys'))"
      using Cons.IH [of ys'] sum_squares_nonneg [of xs] sum_squares_nonneg [of ys']
      by (intro cauchy_schwarz_step) simp_all
    then show ?thesis using Cons by simp
  qed
qed

lemma sum_of_products_le:
  "sum_of_products d1 d2 \<le> frobenius_norm d1 * frobenius_norm d2"
proof (induction d1 arbitrary: d2)
  case Nil
  show ?case by (simp add: sum_of_products_def frobenius_norm_def)
next
  case (Cons r1 d1)
  show ?case
  proof (cases d2)
    case Nil
    then show ?thesis
      by (simp add: sum_of_products_def frobenius_norm_def)
  next
    case (Cons r2 d2')
    have "sum_list (map2 (*) r1 r2) + sum_of_products d1 d2' \<le>
       sqrt (sum_list (map (\<lambda>x. x ^ 2) r1) + sum_list (map (\<lambda>x. x ^ 2) (concat d1))) *
       sqrt (sum_list (map (\<lambda>x. x ^ 2) r2) + sum_list (map (\<lambda>x. x ^ 2) (concat d2')))"
      using Cons.IH [of d2'] cauchy_schwarz_list [of r1 r2]
        sum_squares_nonneg [of r1] sum_squares_nonneg [of r2]
        sum_squares_nonneg [of "concat d1"] sum_squares_nonneg [of "concat d2'"]
      by (intro cauchy_schwarz_step) (simp_all add: frobenius_norm_def)
    then show ?thesis
      using Cons by (simp add: sum_of_products_def frobenius_norm_def)
  qed
qed


lemma dot_nonneg:
  fixes xs ys :: "real list"
  assumes "\<forall>x \<in> set xs. 0 \<le> x" "\<forall>y \<in> set ys. 0 \<le> y"
  shows "0 \<le> sum_list (map2 (*) xs ys)"
  using assms
proof (induction xs arbitrary: ys)
  case Nil
  then show ?case by simp
next
  case (Cons x xs)
  then show ?case by (cases ys) simp_all
qed

lemma sum_of_products_nonneg:
  assumes "nonneg_entries d1" "nonneg_entries d2"
  shows "0 \<le> sum_of_products d1 d2"
  using assms
proof (induction d1 arbitrary: d2)
  case Nil
  then show ?case by (simp add: sum_of_products_def)
next
  case (Cons r1 d1)
  show ?case
  proof (cases d2)
    case Nil
    then show ?thesis by (simp add: sum_of_products_def)
  next
    case (Cons r2 d2')
    have "0 \<le> sum_list (map2 (*) r1 r2)"
      using Cons.prems Cons by (intro dot_nonneg) (simp_all add: nonneg_entries_def)
    moreover have "0 \<le> sum_of_products d1 d2'"
      using Cons.prems Cons by (intro Cons.IH) (simp_all add: nonneg_entries_def)
    ultimately show ?thesis using Cons by (simp add: sum_of_products_def)
  qed
qed

lemma set_roll: "set (roll shift xs) = set xs"
proof (cases "xs = []")
  case True
  then show ?thesis by (simp add: roll_def)
next
  case False
  have "set (drop k xs @ take k xs) = set (take k xs @ drop k xs)" for k
    by (simp only: set_append Un_commute)
  then show ?thesis using False by (simp add: roll_def Let_def)
qed

lemma sum_list_roll:
  fixes f :: "real \<Rightarrow> real"
  shows "sum_list (map f (roll shift xs)) = sum_list (map f xs)"
proof (cases "xs = []")
  case True
  then show ?thesis by (simp add: roll_def)
next
  case False
  have "sum_list (map f (drop k xs @ take k xs)) = sum_list (map f xs)" for k
  proof -
    have "sum_list (map f (take k xs)) + sum_list (map f (drop k xs)) = sum_list (map f xs)"
      by (metis append_take_drop_id map_append sum_list_append)
    then show ?thesis by (simp add: add.commute)
  qed
  then show ?thesis using False by (simp add: roll_def Let_def)
qed

lemma frobenius_norm_roll: "frobenius_norm (map (roll shift) d) = frobenius_norm d"
proof -
  have "sum_list (map (\<lambda>x. x ^ 2) (concat (map (roll shift) d))) =
        sum_list (map (\<lambda>x. x ^ 2) (concat d))"
    by (induction d) (simp_all add: sum_list_roll)
  then show ?thesis by (simp add: frobenius_norm_def)
qed

lemma nonneg_entries_roll: "nonneg_entries d \<Longrightarrow> nonneg_entries (map (roll shift) d)"
  by (auto simp: nonneg_entries_def set_roll)

lemma similarity_loop_unit:
  assumes "nonneg_entries d1" "nonneg_entries d2" "0 \<le> best" "best \<le> 1"
  shows "0 \<le> similarity_loop d1 d2 shifts best \<and> similarity_loop d1 d2 shifts best \<le> 1"
  using assms(3,4)
proof (induction shifts arbitrary: best)
  case Nil
  then show ?case by simp
next
  case (Cons shift rest)
  let ?sh = "map (roll shift) d2"
  show ?case
  proof (cases "frobenius_norm d1 > 0 \<and> frobenius_norm ?sh > 0")
    case True
    let ?sim = "sum_of_products d1 ?sh / (frobenius_norm d1 * frobenius_norm ?sh)"
    have pos: "0 < frobenius_norm d1 * frobenius_norm ?sh"
      using True by simp
    have "0 \<le> sum_of_products d1 ?sh"
      using assms(1,2) by (intro sum_of_products_nonneg nonneg_entries_roll)
    then have lo: "0 \<le> ?sim" using pos by simp
    have "sum_of_products d1 ?sh \<le> frobenius_norm d1 * frobenius_norm ?sh"
      by (rule sum_of_products_le)
    then have hi: "?sim \<le> 1" using pos by simp
    have "0 \<le> max best ?sim" "max best ?sim \<le> 1"
      using Cons.prems lo hi by simp_all
    from Cons.IH [OF this] show ?thesis
      using True by (simp add: Let_def)
  next
    case False
    then show ?thesis using Cons.IH [OF Cons.prems] by (auto simp: Let_def)
  qed
qed

lemma similarity_loop_zero_norm:
  assumes "frobenius_norm d1 = 0 \<or> frobenius_norm d2 = 0"
  shows "similarity_loop d1 d2 shifts best = best"
  using assms
  by (induction shifts arbitrary: best) (auto simp: Let_def frobenius_norm_roll)

lemma compute_descriptor_nonneg:
  assumes "compute_descriptor cfg points = Inr d"
    and "0 < num_rings cfg" "0 < num_sectors cfg"
  shows "nonneg_entries d"
proof -
  from compute_descriptor_bins [OF assms(2,3), of points] assms(1)
  have ws: "well_shaped cfg d" and
    v: "\<forall>r < num_rings cfg. \<forall>a < num_sectors cfg.
        d ! r ! a = Max (insert 0 (zcoord ` {p \<in> set points. bin_of cfg p = (r, a)}))"
    by auto
  have "0 \<le> x" if "row \<in> set d" "x \<in> set row" for row x
  proof -
    from that(1) obtain r where r: "r < length d" "row = d ! r"
      by (auto simp: in_set_conv_nth)
    from that(2) obtain a where a: "a < length row" "x = row ! a"
      by (auto simp: in_set_conv_nth)
    have rr: "r < num_rings cfg" using r ws by (simp add: well_shaped_def)
    then have aa: "a < num_sectors cfg" using a r ws by (simp add: well_shaped_def)
    have "x = Max (insert 0 (zcoord ` {p \<in> set points. bin_of cfg p = (r, a)}))"
      using v rr aa r a by simp
    then show ?thesis by simp
  qed
  then show ?thesis by (simp add: nonneg_entries_def)
qed

text \<open>
  Claim C10.  For two descriptors computed by the detector (at least one ring and one
  sector), no entry of either is negative, the similarity lies in [0, 1], and it is 0
  when either descriptor has norm 0.
\<close>

theorem similarity_in_unit_interval:
  assumes "compute_descriptor cfg points1 = Inr desc1"
    and "compute_descriptor cfg points2 = Inr desc2"
    and "0 < num_rings cfg" and "0 < num_sectors cfg"
  shows "nonneg_entries desc1 \<and> nonneg_entries desc2 \<and>
         0 \<le> compute_similarity cfg desc1 desc2 \<and> compute_similarity cfg desc1 desc2 \<le> 1 \<and>
         (frobenius_norm desc1 = 0 \<or> frobenius_norm desc2 = 0 \<longrightarrow>
            compute_similarity cfg desc1 desc2 = 0)"
proof -
  have n1: "nonneg_entries desc1"
    using assms(1,3,4) by (rule compute_descriptor_nonneg)
  have n2: "nonneg_entries desc2"
    using assms(2,3,4) by (rule compute_descriptor_nonneg)
  have "0 \<le> similarity_loop desc1 desc2 [0..<num_sectors cfg] 0 \<and>
        similarity_loop desc1 desc2 [0..<num_sectors cfg] 0 \<le> 1"
    using n1 n2 by (rule similarity_loop_unit) simp_all
  then show ?thesis
    using n1 n2 similarity_loop_zero_norm [of desc1 desc2 "[0..<num_sectors cfg]" 0]
    by (auto simp: compute_similarity_def)
qed

text \<open>
  The theorem at a grid of one ring and two sectors: the cloud with one point ahead of
  the sensor gives the descriptor [[0, 1]], the cloud with a point ahead and a point to
  the right gives [[3, 2]].
\<close>

lemma small_descriptor_examples:
  "compute_descriptor \<lparr> num_sectors = 2, num_rings = 1, max_range = 80 \<rparr> [(1, 0, 1)] =
     Inr [[0, 1]]"
  "compute_descriptor \<lparr> num_sectors = 2, num_rings = 1, max_range = 80 \<rparr>
     [(1, 0, 2), (0, - 1, 3)] = Inr [[3, 2]]"
  by (simp_all add: compute_descriptor_def arctan2_def astype_int_def clip_def py_index_def
      eval_nat_numeral)

theorem similarity_in_unit_interval_witness:
  "compute_descriptor \<lparr> num_sectors = 2, num_rings = 1, max_range = 80 \<rparr> [(1, 0, 1)] =
     Inr [[0, 1]] \<and>
   compute_descriptor \<lparr> num_sectors = 2, num_rings = 1, max_range = 80 \<rparr>
     [(1, 0, 2), (0, - 1, 3)] = Inr [[3, 2]] \<and>
   0 < num_rings \<lparr> num_sectors = 2, num_rings = 1, max_range = 80 \<rparr> \<and>
   0 < num_sectors \<lparr> num_sectors = 2, num_rings = 1, max_range = 80 \<rparr> \<and>
   0 \<le> compute_similarity \<lparr> num_sectors = 2, num_rings = 1, max_range = 80 \<rparr>
          [[0, 1]] [[3, 2]] \<and>
   compute_similarity \<lparr> num_sectors = 2, num_rings = 1, max_range = 80 \<rparr>
     [[0, 1]] [[3, 2]] \<le> 1"
  using similarity_in_unit_interval [OF small_descriptor_examples] small_descriptor_examples
  by simp

section \<open>Properties of the Douglas-Peucker simplification\<close>

lemma norm2_nonneg: "0 \<le> norm2 v"
  by (cases v) simp

lemma point_line_distance_nonneg: "0 \<le> point_line_distance start line_unit p"
  by (simp add: point_line_distance_def Let_def norm2_nonneg)

lemma point_line_distance_start: "point_line_distance start line_unit start = 0"
  by (cases start; cases line_unit) (simp add: point_line_distance_def Let_def)

lemma point_line_distance_end:
  assumes "0 < norm2 (sub2 endp start)"
  shows "point_line_distance start (div2 (sub2 endp start) (norm2 (sub2 endp start))) endp = 0"
proof -
  obtain sx sy where s: "start = (sx, sy)" by (cases start)
  obtain ex ey where e: "endp = (ex, ey)" by (cases endp)
  define dx where "dx = ex - sx"
  define dy where "dy = ey - sy"
  define l where "l = sqrt (dx ^ 2 + dy ^ 2)"
  have l: "0 < l" using assms by (simp add: s e l_def dx_def dy_def)
  have l2: "l * l = dx ^ 2 + dy ^ 2"
    unfolding l_def by (simp add: power2_eq_square [symmetric])
  have "dx * (dx / l) + dy * (dy / l) = (dx ^ 2 + dy ^ 2) / l"
    by (simp add: power2_eq_square add_divide_distrib)
  also have "\<dots> = l" using l l2 by (simp add: field_simps)
  finally have proj: "dx * (dx / l) + dy * (dy / l) = l" .
  have canc: "l * (dx / l) = dx" "l * (dy / l) = dy" using l by simp_all
  have "point_line_distance start (div2 (sub2 endp start) (norm2 (sub2 endp start))) endp =
        norm2 (ex - (sx + (dx * (dx / l) + dy * (dy / l)) * (dx / l)),
               ey - (sy + (dx * (dx / l) + dy * (dy / l)) * (dy / l)))"
    by (simp add: s e point_line_distance_def Let_def dx_def dy_def l_def)
  also have "\<dots> = norm2 (ex - (sx + dx), ey - (sy + dy))"
    by (simp only: proj canc)
  also have "\<dots> = 0"
    by (simp add: dx_def dy_def)
  finally show ?thesis .
qed

lemma fold_max_props:
  fixes a :: real
  shows "fold max xs a \<in> insert a (set xs) \<and> a \<le> fold max xs a \<and>
         (\<forall>x \<in> set xs. x \<le> fold max xs a)"
proof (induction xs arbitrary: a)
  case Nil
  then show ?case by simp
next
  case (Cons x xs)
  from Cons [of "max a x"] show ?case by (auto simp: max_def split: if_splits)
qed

lemma list_max_in: "ds \<noteq> [] \<Longrightarrow> list_max ds \<in> set ds"
  using fold_max_props [of "tl ds" "hd ds"] by (cases ds) (auto simp: list_max_def)

lemma list_max_ge: "x \<in> set ds \<Longrightarrow> x \<le> list_max ds"
  using fold_max_props [of "tl ds" "hd ds"] by (cases ds) (auto simp: list_max_def)

lemma index_of_in:
  assumes "x \<in> set ds"
  shows "index_of ds x < length ds \<and> ds ! index_of ds x = x"
  using assms by (induction ds) (auto simp: index_of_def)



lemma split_index_interior:
  assumes n: "3 \<le> length points"
    and len: "\<not> norm2 (sub2 (last points) (hd points)) < 1 / 1000000"
    and big: "tol < list_max (map (point_line_distance (hd points) (chord_unit points)) points)"
    and tol: "0 \<le> tol"
  shows "0 < index_of (map (point_line_distance (hd points) (chord_unit points)) points)
             (list_max (map (point_line_distance (hd points) (chord_unit points)) points)) \<and>
         index_of (map (point_line_distance (hd points) (chord_unit points)) points)
             (list_max (map (point_line_distance (hd points) (chord_unit points)) points))
           < length points - 1"
proof -
  let ?ds = "map (point_line_distance (hd points) (chord_unit points)) points"
  let ?k = "index_of ?ds (list_max ?ds)"
  have ne: "?ds \<noteq> []" using n by (cases points) simp_all
  have k: "?k < length ?ds" "?ds ! ?k = list_max ?ds"
    using index_of_in [OF list_max_in [OF ne]] by simp_all
  have pos: "0 < ?ds ! ?k" using k big tol by simp
  have lp: "0 < length points" using n by arith
  then have "points \<noteq> []" by simp
  then have "points ! 0 = hd points" by (simp add: hd_conv_nth)
  with lp have d0: "?ds ! 0 = 0"
    by (simp add: point_line_distance_start)
  have "0 < norm2 (sub2 (last points) (hd points))" using len by simp
  then have "point_line_distance (hd points) (chord_unit points) (last points) = 0"
    unfolding chord_unit_def by (rule point_line_distance_end)
  then have dn: "?ds ! (length points - 1) = 0"
    using lp by (simp add: last_conv_nth)
  have "?k \<noteq> 0" using pos d0 by (metis less_irrefl)
  moreover have "?k \<noteq> length points - 1" using pos dn by (metis less_irrefl)
  ultimately show ?thesis using k(1) by simp
qed


lemma douglas_peucker_Suc:
  "douglas_peucker (Suc d) points tol =
     (if length points < 3 then Some [0..<length points]
      else if norm2 (sub2 (last points) (hd points)) < 1 / 1000000
        then Some [0, length points - 1]
      else if tol < list_max (map (point_line_distance (hd points) (chord_unit points)) points)
        then
          (case douglas_peucker d
              (take (index_of (map (point_line_distance (hd points) (chord_unit points)) points)
                 (list_max (map (point_line_distance (hd points) (chord_unit points)) points)) + 1)
                 points) tol of
             None \<Rightarrow> None
           | Some left \<Rightarrow>
               (case douglas_peucker d
                  (drop (index_of (map (point_line_distance (hd points) (chord_unit points)) points)
                    (list_max (map (point_line_distance (hd points) (chord_unit points)) points)))
                    points) tol of
                  None \<Rightarrow> None
                | Some right \<Rightarrow>
                    Some (butlast left @
                      map (\<lambda>i. i + index_of
                        (map (point_line_distance (hd points) (chord_unit points)) points)
                        (list_max (map (point_line_distance (hd points) (chord_unit points)) points)))
                        right)))
      else Some [0, length points - 1])"
  by (simp only: douglas_peucker.simps Let_def chord_unit_def)

lemma keeps_endpoints_pair: "0 < m \<Longrightarrow> keeps_endpoints (Suc m) [0, m]"
  by (simp add: keeps_endpoints_def)

lemma keeps_endpoints_combine:
  assumes l: "keeps_endpoints (k + 1) left" and r: "keeps_endpoints (n - k) right"
    and k: "0 < k" "k < n - 1"
  shows "keeps_endpoints n (butlast left @ map (\<lambda>i. i + k) right)"
proof -
  from l have lne: "left \<noteq> []" and lhd: "hd left = 0" and llast: "last left = k"
    and ls: "sorted_wrt (<) left"
    by (simp_all add: keeps_endpoints_def)
  from r have rne: "right \<noteq> []" and rlast: "last right = n - k - 1"
    and rs: "sorted_wrt (<) right"
    by (simp_all add: keeps_endpoints_def)
  have split: "left = butlast left @ [k]"
    using lne llast by (metis append_butlast_last_id)
  have bne: "butlast left \<noteq> []"
  proof
    assume "butlast left = []"
    with split have "left = [k]" by simp
    with lhd k(1) show False by simp
  qed
  have bhd: "hd (butlast left) = 0"
    using bne lhd split by (metis hd_append2)
  have bs: "sorted_wrt (<) (butlast left)" and blt: "\<forall>x \<in> set (butlast left). x < k"
    using ls split by (metis sorted_wrt_append, metis sorted_wrt_append list.set_intros(1))
  have ms: "sorted_wrt (<) (map (\<lambda>i. i + k) right)"
    using rs by (simp add: sorted_wrt_map)
  have mge: "\<forall>y \<in> set (map (\<lambda>i. i + k) right). k \<le> y"
    by simp
  have "sorted_wrt (<) (butlast left @ map (\<lambda>i. i + k) right)"
    using bs ms blt mge by (fastforce simp: sorted_wrt_append)
  moreover have "hd (butlast left @ map (\<lambda>i. i + k) right) = 0"
    using bne bhd by simp
  moreover have "last (butlast left @ map (\<lambda>i. i + k) right) = n - 1"
    using rne rlast k by (simp add: last_map)
  ultimately show ?thesis using bne by (simp add: keeps_endpoints_def)
qed

lemma douglas_peucker_returns:
  assumes "0 \<le> tol" and "length points < depth"
  shows "\<exists>idxs. douglas_peucker depth points tol = Some idxs \<and>
           (2 \<le> length points \<longrightarrow> keeps_endpoints (length points) idxs)"
  using assms(2)
proof (induction depth arbitrary: points)
  case 0
  then show ?case by simp
next
  case (Suc d)
  let ?n = "length points"
  let ?ds = "map (point_line_distance (hd points) (chord_unit points)) points"
  let ?k = "index_of ?ds (list_max ?ds)"
  show ?case
  proof (cases "?n < 3")
    case True
    have "keeps_endpoints 2 [0..<2]"
      by (simp add: keeps_endpoints_def upt_rec)
    then have "2 \<le> ?n \<longrightarrow> keeps_endpoints ?n [0..<?n]"
      using True by (cases "?n = 2") auto
    then show ?thesis using True by (simp add: douglas_peucker_Suc del: douglas_peucker.simps)
  next
    case False
    then have n3: "3 \<le> ?n" by simp
    have pair: "keeps_endpoints ?n [0, ?n - 1]"
      using n3 by (simp add: keeps_endpoints_def)
    show ?thesis
    proof (cases "\<not> norm2 (sub2 (last points) (hd points)) < 1 / 1000000 \<and> tol < list_max ?ds")
      case False
      then show ?thesis using n3 pair by (auto simp: douglas_peucker_Suc simp del: douglas_peucker.simps)
    next
      case True
      then have len: "\<not> norm2 (sub2 (last points) (hd points)) < 1 / 1000000"
        and big: "tol < list_max ?ds" by simp_all
      have k: "0 < ?k" "?k < ?n - 1"
        using split_index_interior [OF n3 len big assms(1)] by simp_all
      have l1: "length (take (?k + 1) points) = ?k + 1" using k by simp
      have l2: "length (drop ?k points) = ?n - ?k" by simp
      have "length (take (?k + 1) points) < d" using l1 k Suc.prems by linarith
      from Suc.IH [OF this] obtain left where
        left: "douglas_peucker d (take (?k + 1) points) tol = Some left"
          "keeps_endpoints (?k + 1) left"
        using l1 k by auto
      have "length (drop ?k points) < d" using l2 k Suc.prems by linarith
      from Suc.IH [OF this] obtain right where
        right: "douglas_peucker d (drop ?k points) tol = Some right"
          "keeps_endpoints (?n - ?k) right"
        using l2 k by auto
      have "douglas_peucker (Suc d) points tol = Some (butlast left @ map (\<lambda>i. i + ?k) right)"
        using n3 len big left(1) right(1) by (simp add: douglas_peucker_Suc del: douglas_peucker.simps)
      moreover have "keeps_endpoints ?n (butlast left @ map (\<lambda>i. i + ?k) right)"
        using left(2) right(2) k by (rule keeps_endpoints_combine)
      ultimately show ?thesis by simp
    qed
  qed
qed


lemma list_max_chord_le:
  assumes n3: "3 \<le> length points"
    and len: "\<not> norm2 (sub2 (last points) (hd points)) < 1 / 1000000"
    and tol: "0 \<le> tol"
    and dev: "\<forall>i. 0 < i \<and> i < length points - 1 \<longrightarrow> chord_deviation points (points ! i) \<le> tol"
  shows "list_max (map (point_line_distance (hd points) (chord_unit points)) points) \<le> tol"
proof (rule ccontr)
  let ?ds = "map (point_line_distance (hd points) (chord_unit points)) points"
  let ?k = "index_of ?ds (list_max ?ds)"
  assume "\<not> list_max ?ds \<le> tol"
  then have big: "tol < list_max ?ds" by simp
  have k: "0 < ?k" "?k < length points - 1"
    using split_index_interior [OF n3 len big tol] by simp_all
  have ne: "?ds \<noteq> []" using n3 by (cases points) simp_all
  have "?ds ! ?k = list_max ?ds"
    using index_of_in [OF list_max_in [OF ne]] by simp
  moreover have "?ds ! ?k = chord_deviation points (points ! ?k)"
    using k by (simp add: chord_deviation_def)
  ultimately show False using dev k big by force
qed

lemma douglas_peucker_large_tolerance:
  assumes "0 \<le> tol" and "2 \<le> length points"
    and "\<forall>i. 0 < i \<and> i < length points - 1 \<longrightarrow> chord_deviation points (points ! i) \<le> tol"
  shows "douglas_peucker (Suc d) points tol = Some [0, length points - 1]"
proof (cases "length points < 3")
  case True
  with assms(2) have "length points = 2" by simp
  then show ?thesis by (simp add: douglas_peucker_Suc upt_rec del: douglas_peucker.simps)
next
  case False
  then have n3: "3 \<le> length points" by simp
  show ?thesis
  proof (cases "norm2 (sub2 (last points) (hd points)) < 1 / 1000000")
    case True
    then show ?thesis using False by (simp add: douglas_peucker_Suc del: douglas_peucker.simps)
  next
    case len: False
    have "list_max (map (point_line_distance (hd points) (chord_unit points)) points) \<le> tol"
      using n3 len assms(1,3) by (rule list_max_chord_le)
    then show ?thesis using False len by (simp add: douglas_peucker_Suc del: douglas_peucker.simps)
  qed
qed

lemma find_max_fold:
  fixes dist :: "nat \<Rightarrow> real"
  assumes "\<forall>i. 0 \<le> dist i"
  defines "step \<equiv> (\<lambda>i (max_dist, max_idx).
             let d = dist i in if d > max_dist then (d, i) else (max_dist, max_idx))"
  shows "0 \<le> fst (fold step [Suc 0..<m] (0, 0)) \<and>
         (0 < fst (fold step [Suc 0..<m] (0, 0)) \<longrightarrow>
            0 < snd (fold step [Suc 0..<m] (0, 0)) \<and> snd (fold step [Suc 0..<m] (0, 0)) < m \<and>
            fst (fold step [Suc 0..<m] (0, 0)) = dist (snd (fold step [Suc 0..<m] (0, 0)))) \<and>
         (\<forall>i. 0 < i \<and> i < m \<longrightarrow> dist i \<le> fst (fold step [Suc 0..<m] (0, 0)))"
proof (induction m)
  case 0
  show ?case by simp
next
  case (Suc m)
  show ?case
  proof (cases "m = 0")
    case True
    then show ?thesis by simp
  next
    case False
    define md where "md = fst (fold step [Suc 0..<m] (0, 0))"
    define mi where "mi = snd (fold step [Suc 0..<m] (0, 0))"
    have f: "fold step [Suc 0..<m] (0, 0) = (md, mi)"
      by (simp add: md_def mi_def)
    have u: "fold step [Suc 0..<Suc m] (0, 0) = step m (md, mi)"
      using False by (simp add: f)
    from Suc have ih: "0 \<le> md" "0 < md \<longrightarrow> 0 < mi \<and> mi < m \<and> md = dist mi"
        "\<forall>i. 0 < i \<and> i < m \<longrightarrow> dist i \<le> md"
      by (simp_all add: md_def mi_def)
    show ?thesis
    proof (cases "dist m > md")
      case True
      then have s: "step m (md, mi) = (dist m, m)"
        by (simp add: step_def)
      have "dist i \<le> dist m" if "0 < i \<and> i < Suc m" for i
      proof (cases "i = m")
        case True
        then show ?thesis by simp
      next
        case False
        with that have "0 < i \<and> i < m" by simp
        with ih(3) have "dist i \<le> md" by blast
        with True show ?thesis by simp
      qed
      then show ?thesis
        using False assms unfolding u s by simp
    next
      case nb: False
      then have s: "step m (md, mi) = (md, mi)"
        by (simp add: step_def)
      have "dist i \<le> md" if "0 < i \<and> i < Suc m" for i
      proof (cases "i = m")
        case True
        then show ?thesis using nb by simp
      next
        case False
        with that have "0 < i \<and> i < m" by simp
        with ih(3) show ?thesis by blast
      qed
      then show ?thesis
        using ih unfolding u s by auto
    qed
  qed
qed

lemma find_max_interior_props:
  obtains md mi where
    "find_max_interior points start line_unit = (md, mi)"
    "0 \<le> md"
    "0 < md \<Longrightarrow> 0 < mi \<and> mi < length points - 1 \<and>
        md = point_line_distance start line_unit (points ! mi)"
    "\<And>i. 0 < i \<Longrightarrow> i < length points - 1 \<Longrightarrow>
        point_line_distance start line_unit (points ! i) \<le> md"
proof -
  define md where "md = fst (find_max_interior points start line_unit)"
  define mi where "mi = snd (find_max_interior points start line_unit)"
  have f: "find_max_interior points start line_unit = (md, mi)"
    by (simp add: md_def mi_def)
  have nn: "\<forall>i. 0 \<le> point_line_distance start line_unit (points ! i)"
    by (simp add: point_line_distance_nonneg)
  have "0 \<le> md \<and> (0 < md \<longrightarrow> 0 < mi \<and> mi < length points - 1 \<and>
           md = point_line_distance start line_unit (points ! mi)) \<and>
        (\<forall>i. 0 < i \<and> i < length points - 1 \<longrightarrow>
           point_line_distance start line_unit (points ! i) \<le> md)"
    using find_max_fold [OF nn, of "length points - 1"]
    by (simp add: md_def mi_def find_max_interior_def)
  then show thesis using that [OF f] by blast
qed

lemma douglas_peucker_op_Suc:
  "douglas_peucker_op (Suc d) points eps =
     (if length points \<le> 2 then Some points
      else if norm2 (sub2 (last points) (hd points)) < 1 / 1000000
        then Some [hd points, last points]
      else if eps < fst (find_max_interior points (hd points) (chord_unit points))
        then
          (case douglas_peucker_op d
              (take (snd (find_max_interior points (hd points) (chord_unit points)) + 1) points)
              eps of
             None \<Rightarrow> None
           | Some left \<Rightarrow>
               (case douglas_peucker_op d
                  (drop (snd (find_max_interior points (hd points) (chord_unit points))) points)
                  eps of
                  None \<Rightarrow> None
                | Some right \<Rightarrow> Some (butlast left @ right)))
      else Some [hd points, last points])"
  by (simp only: douglas_peucker_op.simps Let_def chord_unit_def case_prod_beta)

lemma keeps_endpoints_bound:
  assumes "keeps_endpoints m idxs" "i \<in> set idxs"
  shows "i \<le> m - 1"
proof -
  from assms(1) have ne: "idxs \<noteq> []" and l: "last idxs = m - 1" and s: "sorted_wrt (<) idxs"
    by (simp_all add: keeps_endpoints_def)
  have split: "idxs = butlast idxs @ [m - 1]"
    using ne l by (metis append_butlast_last_id)
  then have "\<forall>x \<in> set (butlast idxs). x < m - 1"
    using s by (metis sorted_wrt_append list.set_intros(1))
  moreover have "i \<in> set (butlast idxs) \<or> i = m - 1"
    using assms(2) split by (metis Un_iff insert_iff list.set(2) set_append empty_iff list.set(1))
  ultimately show ?thesis by auto
qed


lemma douglas_peucker_op_large_tolerance:
  assumes "0 \<le> eps" and "2 \<le> length points"
    and "\<forall>i. 0 < i \<and> i < length points - 1 \<longrightarrow> chord_deviation points (points ! i) \<le> eps"
  shows "douglas_peucker_op (Suc d) points eps = Some [hd points, last points]"
proof (cases "length points \<le> 2")
  case True
  with assms(2) have "length points = 2" by simp
  then obtain a b where "points = [a, b]"
    by (cases points; cases "tl points") auto
  then show ?thesis by (simp add: douglas_peucker_op_Suc del: douglas_peucker_op.simps)
next
  case False
  obtain md k where
    f: "find_max_interior points (hd points) (chord_unit points) = (md, k)" and
    kprop: "0 < md \<Longrightarrow> 0 < k \<and> k < length points - 1 \<and>
       md = point_line_distance (hd points) (chord_unit points) (points ! k)"
    by (rule find_max_interior_props [of points "hd points" "chord_unit points"]) blast
  have "md \<le> eps"
  proof (cases "0 < md")
    case True
    from kprop [OF True] assms(3) show ?thesis
      by (simp add: chord_deviation_def)
  next
    case False
    then show ?thesis using assms(1) by simp
  qed
  then show ?thesis
    using False f by (simp add: douglas_peucker_op_Suc del: douglas_peucker_op.simps)
qed
lemma keeps_endpoints_map_ends:
  assumes "keeps_endpoints (length points) idxs" "points \<noteq> []"
  shows "hd (map ((!) points) idxs) = hd points \<and> last (map ((!) points) idxs) = last points"
proof -
  from assms(1) have ne: "idxs \<noteq> []" and h: "hd idxs = 0" and l: "last idxs = length points - 1"
    by (simp_all add: keeps_endpoints_def)
  have "hd (map ((!) points) idxs) = points ! 0"
    using ne h by (simp add: hd_map)
  moreover have "last (map ((!) points) idxs) = points ! (length points - 1)"
    using ne l by (simp add: last_map)
  ultimately show ?thesis
    using assms(2) by (simp add: hd_conv_nth last_conv_nth)
qed


lemma segment_whole: "segment points 0 (length points - 1) = points"
  by (cases points) (simp_all add: segment_def)

lemma segment_take:
  assumes "a \<le> k" and "b \<le> k"
  shows "segment (take (k + 1) points) a b = segment points a b"
  using assms by (simp add: segment_def drop_take min_def)

lemma segment_drop: "segment (drop k points) a b = segment points (a + k) (b + k)"
  by (simp add: segment_def)

lemma within_tolerance_short: "length points \<le> 2 \<Longrightarrow> within_tolerance tol points"
  by (auto simp: within_tolerance_def)

lemma within_tolerance_max:
  assumes "list_max (map (point_line_distance (hd points) (chord_unit points)) points) \<le> tol"
  shows "within_tolerance tol points"
proof -
  let ?ds = "map (point_line_distance (hd points) (chord_unit points)) points"
  have "chord_deviation points (points ! i) \<le> tol" if "i \<in> {1..<length points - 1}" for i
  proof -
    from that have "i < length points" by auto
    then have "chord_deviation points (points ! i) \<in> set ?ds"
      by (simp add: chord_deviation_def)
    from list_max_ge [OF this] assms show ?thesis by simp
  qed
  then show ?thesis by (simp add: within_tolerance_def)
qed

lemma within_tolerance_interior:
  "within_tolerance tol points \<longleftrightarrow>
     norm2 (sub2 (last points) (hd points)) < 1 / 1000000 \<or>
     (\<forall>i. 0 < i \<and> i < length points - 1 \<longrightarrow> chord_deviation points (points ! i) \<le> tol)"
  by (auto simp: within_tolerance_def)

lemma dropped_within_pair:
  "within_tolerance tol points \<Longrightarrow> dropped_within tol points [0, length points - 1]"
  using segment_whole [of points] by (simp add: dropped_within_def)

lemma dropped_within_upt:
  assumes "length points < 3"
  shows "dropped_within tol points [0..<length points]"
proof -
  consider "length points = 0" | "length points = 1" | "length points = 2"
    using assms by linarith
  then show ?thesis
  proof cases
    case 1
    then show ?thesis by (simp add: dropped_within_def)
  next
    case 2
    then show ?thesis by (simp add: dropped_within_def)
  next
    case 3
    then have "[0..<length points] = [0, length points - 1]"
      by (simp add: upt_rec)
    moreover have "within_tolerance tol points"
      using 3 by (simp add: within_tolerance_short)
    ultimately show ?thesis using dropped_within_pair [of tol points] by simp
  qed
qed

lemma successively_combine:
  assumes sl: "successively P left" and sr: "successively P (map (\<lambda>i. i + k) right)"
    and kl: "keeps_endpoints (k + 1) left" and kr: "keeps_endpoints m right"
  shows "successively P (butlast left @ map (\<lambda>i. i + k) right)"
proof -
  from kl have "left \<noteq> []" "last left = k"
    by (simp_all add: keeps_endpoints_def)
  then have split: "left = butlast left @ [k]"
    by (metis append_butlast_last_id)
  from kr have rne: "right \<noteq> []" and "hd right = 0"
    by (simp_all add: keeps_endpoints_def)
  then have hdr: "hd (map (\<lambda>i. i + k) right) = k"
    by (simp add: hd_map)
  from sl split have "successively P (butlast left @ [k])" by simp
  then have bl: "successively P (butlast left)"
      "butlast left = [] \<or> P (last (butlast left)) k"
    by (simp_all add: successively_append_iff)
  show ?thesis
    unfolding successively_append_iff
    using bl sr hdr by auto
qed

lemma dropped_within_combine:
  assumes l: "dropped_within tol (take (k + 1) points) left"
    and kl: "keeps_endpoints (k + 1) left"
    and r: "dropped_within tol (drop k points) right"
    and kr: "keeps_endpoints m right"
  shows "dropped_within tol points (butlast left @ map (\<lambda>i. i + k) right)"
proof -
  let ?P = "\<lambda>a b. within_tolerance tol (segment points a b)"
  have "successively (\<lambda>a b. within_tolerance tol (segment (take (k + 1) points) a b)) left"
    using l by (simp add: dropped_within_def)
  then have sl: "successively ?P left"
  proof (rule successively_mono)
    fix a b
    assume "a \<in> set left" "b \<in> set left"
      and w: "within_tolerance tol (segment (take (k + 1) points) a b)"
    then have "a \<le> k" "b \<le> k"
      using keeps_endpoints_bound [OF kl] by fastforce+
    then show "within_tolerance tol (segment points a b)"
      using w by (simp only: segment_take)
  qed
  have sr: "successively ?P (map (\<lambda>i. i + k) right)"
    using r by (simp add: dropped_within_def successively_map segment_drop)
  show ?thesis
    unfolding dropped_within_def using sl sr kl kr by (rule successively_combine)
qed

lemma adjacent_combine:
  assumes l: "successively (\<lambda>a b. b = Suc a \<and> take (k + 1) points ! a = take (k + 1) points ! b
                 \<longrightarrow> length (take (k + 1) points) = 2) left"
    and kl: "keeps_endpoints (k + 1) left"
    and r: "successively (\<lambda>a b. b = Suc a \<and> drop k points ! a = drop k points ! b
                 \<longrightarrow> length (drop k points) = 2) right"
    and kr: "keeps_endpoints (length points - k) right"
    and k: "0 < k" "k < length points - 1"
    and ne0: "points ! k \<noteq> points ! 0" and nel: "points ! k \<noteq> points ! (length points - 1)"
  shows "successively (\<lambda>a b. b = Suc a \<longrightarrow> points ! a \<noteq> points ! b)
           (butlast left @ map (\<lambda>i. i + k) right)"
proof -
  let ?Q = "\<lambda>a b. b = Suc a \<longrightarrow> points ! a \<noteq> points ! b"
  from l have sl: "successively ?Q left"
  proof (rule successively_mono)
    fix a b
    assume ab: "a \<in> set left" "b \<in> set left"
      and h: "b = Suc a \<and> take (k + 1) points ! a = take (k + 1) points ! b
                 \<longrightarrow> length (take (k + 1) points) = 2"
    have le: "a \<le> k" "b \<le> k"
      using keeps_endpoints_bound [OF kl] ab by fastforce+
    show "?Q a b"
    proof
      assume s: "b = Suc a"
      show "points ! a \<noteq> points ! b"
      proof
        assume "points ! a = points ! b"
        then have "take (k + 1) points ! a = take (k + 1) points ! b"
          using le by simp
        with h s have "length (take (k + 1) points) = 2" by blast
        then have "k = 1" using k by simp
        with le s have "a = 0" "b = k" by simp_all
        with \<open>points ! a = points ! b\<close> ne0 show False by simp
      qed
    qed
  qed
  from r have "successively (\<lambda>a b. ?Q (a + k) (b + k)) right"
  proof (rule successively_mono)
    fix a b
    assume ab: "a \<in> set right" "b \<in> set right"
      and h: "b = Suc a \<and> drop k points ! a = drop k points ! b
                 \<longrightarrow> length (drop k points) = 2"
    have le: "a \<le> length points - k - 1" "b \<le> length points - k - 1"
      using keeps_endpoints_bound [OF kr] ab by fastforce+
    show "?Q (a + k) (b + k)"
    proof
      assume s: "b + k = Suc (a + k)"
      show "points ! (a + k) \<noteq> points ! (b + k)"
      proof
        assume e: "points ! (a + k) = points ! (b + k)"
        have "drop k points ! a = drop k points ! b"
          using e k by (simp add: add.commute)
        with h s have "length (drop k points) = 2" by simp
        then have "length points - k = 2" by simp
        with le s have "a = 0" "b + k = length points - 1" by linarith+
        with e nel show False by simp
      qed
    qed
  qed
  then have sr: "successively ?Q (map (\<lambda>i. i + k) right)"
    by (simp add: successively_map)
  show ?thesis using sl sr kl kr by (rule successively_combine)
qed

lemma douglas_peucker_dropped_within:
  assumes "0 \<le> tol" and "length points < depth"
    and "douglas_peucker depth points tol = Some idxs"
  shows "dropped_within tol points idxs"
  using assms(2,3)
proof (induction depth arbitrary: points idxs)
  case 0
  then show ?case by simp
next
  case (Suc d)
  let ?n = "length points"
  let ?ds = "map (point_line_distance (hd points) (chord_unit points)) points"
  let ?k = "index_of ?ds (list_max ?ds)"
  show ?case
  proof (cases "?n < 3")
    case True
    then have "douglas_peucker (Suc d) points tol = Some [0..<?n]"
      by (simp only: douglas_peucker_Suc if_True)
    with Suc.prems(2) have "idxs = [0..<?n]" by (simp only: option.inject)
    then show ?thesis using dropped_within_upt [OF True] by simp
  next
    case False
    then have n3: "3 \<le> ?n" by simp
    show ?thesis
    proof (cases "\<not> norm2 (sub2 (last points) (hd points)) < 1 / 1000000 \<and> tol < list_max ?ds")
      case nosplit: False
      then have "douglas_peucker (Suc d) points tol = Some [0, ?n - 1]"
        using n3 by (auto simp: douglas_peucker_Suc simp del: douglas_peucker.simps)
      with Suc.prems(2) have i: "idxs = [0, ?n - 1]" by (simp only: option.inject)
      have "within_tolerance tol points"
      proof (cases "norm2 (sub2 (last points) (hd points)) < 1 / 1000000")
        case True
        then show ?thesis by (simp add: within_tolerance_def)
      next
        case False
        with nosplit have "list_max ?ds \<le> tol" by simp
        then show ?thesis by (rule within_tolerance_max)
      qed
      then show ?thesis unfolding i by (rule dropped_within_pair)
    next
      case True
      then have len: "\<not> norm2 (sub2 (last points) (hd points)) < 1 / 1000000"
        and big: "tol < list_max ?ds" by simp_all
      have k: "0 < ?k" "?k < ?n - 1"
        using split_index_interior [OF n3 len big assms(1)] by simp_all
      have l1: "length (take (?k + 1) points) = ?k + 1" using k by simp
      have l2: "length (drop ?k points) = ?n - ?k" by simp
      have d1: "length (take (?k + 1) points) < d" using l1 k Suc.prems(1) by linarith
      from douglas_peucker_returns [OF assms(1) d1] obtain left where
        left: "douglas_peucker d (take (?k + 1) points) tol = Some left"
          "keeps_endpoints (?k + 1) left"
        using l1 k by auto
      have d2: "length (drop ?k points) < d" using l2 k Suc.prems(1) by linarith
      from douglas_peucker_returns [OF assms(1) d2] obtain right where
        right: "douglas_peucker d (drop ?k points) tol = Some right"
          "keeps_endpoints (?n - ?k) right"
        using l2 k by auto
      have "douglas_peucker (Suc d) points tol = Some (butlast left @ map (\<lambda>i. i + ?k) right)"
        using n3 len big left(1) right(1) by (simp add: douglas_peucker_Suc del: douglas_peucker.simps)
      with Suc.prems(2) have i: "idxs = butlast left @ map (\<lambda>i. i + ?k) right"
        by (simp only: option.inject)
      have "dropped_within tol (take (?k + 1) points) left"
        using d1 left(1) by (rule Suc.IH)
      moreover have "dropped_within tol (drop ?k points) right"
        using d2 right(1) by (rule Suc.IH)
      ultimately show ?thesis
        unfolding i using left(2) right(2) by (intro dropped_within_combine) 
    qed
  qed
qed


lemma deviating_point_not_end:
  assumes "0 < point_line_distance (hd points) (chord_unit points) (points ! k)"
    and "\<not> norm2 (sub2 (last points) (hd points)) < 1 / 1000000" and "points \<noteq> []"
  shows "points ! k \<noteq> points ! 0 \<and> points ! k \<noteq> points ! (length points - 1)"
proof -
  have "point_line_distance (hd points) (chord_unit points) (points ! 0) = 0"
    using assms(3) by (simp add: hd_conv_nth [symmetric] point_line_distance_start)
  moreover have "0 < norm2 (sub2 (last points) (hd points))" using assms(2) by simp
  then have "point_line_distance (hd points) (chord_unit points) (last points) = 0"
    unfolding chord_unit_def by (rule point_line_distance_end)
  then have "point_line_distance (hd points) (chord_unit points) (points ! (length points - 1)) = 0"
    using assms(3) by (simp add: last_conv_nth)
  ultimately show ?thesis using assms(1) by force
qed

lemma douglas_peucker_op_segments:
  assumes "0 \<le> eps" and "length points < depth"
  shows "\<exists>res idxs. douglas_peucker_op depth points eps = Some res \<and>
           (2 \<le> length points \<longrightarrow>
              keeps_endpoints (length points) idxs \<and> res = map ((!) points) idxs \<and>
              dropped_within eps points idxs \<and>
              successively (\<lambda>a b. b = Suc a \<and> points ! a = points ! b \<longrightarrow> length points = 2)
                idxs)"
  using assms(2)
proof (induction depth arbitrary: points)
  case 0
  then show ?case by simp
next
  case (Suc d)
  let ?n = "length points"
  show ?case
  proof (cases "?n \<le> 2")
    case True
    have "keeps_endpoints 2 [0, 1] \<and> points = map ((!) points) [0, 1] \<and>
          dropped_within eps points [0, 1]" if "?n = 2"
    proof -
      from that obtain a b where "points = [a, b]"
        by (cases points; cases "tl points") auto
      moreover have "dropped_within eps points [0, ?n - 1]"
        using that by (intro dropped_within_pair within_tolerance_short) simp
      ultimately show ?thesis using that by (simp add: keeps_endpoints_def)
    qed
    then have "2 \<le> ?n \<longrightarrow> keeps_endpoints ?n [0, 1] \<and> points = map ((!) points) [0, 1] \<and>
        dropped_within eps points [0, 1] \<and>
        successively (\<lambda>a b. b = Suc a \<and> points ! a = points ! b \<longrightarrow> ?n = 2) [0, 1]"
      using True by (cases "?n = 2") auto
    moreover have "douglas_peucker_op (Suc d) points eps = Some points"
      using True by (simp only: douglas_peucker_op_Suc if_True)
    ultimately show ?thesis
      by (intro exI [of _ points] exI [of _ "[0, 1]"] conjI) assumption+
  next
    case False
    then have n3: "3 \<le> ?n" by simp
    then have ne: "points \<noteq> []" by (cases points) simp_all
    have pair: "keeps_endpoints ?n [0, ?n - 1]"
      using n3 by (simp add: keeps_endpoints_def)
    have pts: "[hd points, last points] = map ((!) points) [0, ?n - 1]"
      using ne by (simp add: hd_conv_nth last_conv_nth)
    have adj: "successively (\<lambda>a b. b = Suc a \<and> points ! a = points ! b \<longrightarrow> ?n = 2) [0, ?n - 1]"
      using n3 by auto
    obtain md k where
      f: "find_max_interior points (hd points) (chord_unit points) = (md, k)" and
      kprop: "0 < md \<Longrightarrow> 0 < k \<and> k < ?n - 1 \<and>
          md = point_line_distance (hd points) (chord_unit points) (points ! k)" and
      kmax: "\<And>i. 0 < i \<Longrightarrow> i < ?n - 1 \<Longrightarrow>
          point_line_distance (hd points) (chord_unit points) (points ! i) \<le> md"
      by (rule find_max_interior_props [of points "hd points" "chord_unit points"]) blast
    show ?thesis
    proof (cases "\<not> norm2 (sub2 (last points) (hd points)) < 1 / 1000000 \<and> eps < md")
      case nosplit: False
      then have res: "douglas_peucker_op (Suc d) points eps = Some [hd points, last points]"
        using n3 f by (auto simp: douglas_peucker_op_Suc simp del: douglas_peucker_op.simps)
      have "within_tolerance eps points"
      proof (cases "norm2 (sub2 (last points) (hd points)) < 1 / 1000000")
        case True
        then show ?thesis by (simp add: within_tolerance_def)
      next
        case False
        with nosplit have "md \<le> eps" by simp
        then have "chord_deviation points (points ! i) \<le> eps"
          if "0 < i \<and> i < ?n - 1" for i
          using kmax [of i] that by (simp add: chord_deviation_def)
        then show ?thesis by (simp add: within_tolerance_interior)
      qed
      then have dw: "dropped_within eps points [0, ?n - 1]" by (rule dropped_within_pair)
      show ?thesis
        by (intro exI [of _ "[hd points, last points]"] exI [of _ "[0, ?n - 1]"] conjI impI)
           (rule res pair pts dw adj)+
    next
      case True
      then have len: "\<not> norm2 (sub2 (last points) (hd points)) < 1 / 1000000"
        and big: "eps < md" by simp_all
      have mdpos: "0 < md" using big assms(1) by simp
      have k: "0 < k" "k < ?n - 1"
        using kprop [OF mdpos] by simp_all
      have "0 < point_line_distance (hd points) (chord_unit points) (points ! k)"
        using kprop [OF mdpos] mdpos by simp
      from deviating_point_not_end [OF this len ne]
      have ne0: "points ! k \<noteq> points ! 0" and nel: "points ! k \<noteq> points ! (?n - 1)"
        by simp_all
      have l1: "length (take (k + 1) points) = k + 1" using k by simp
      have l2: "length (drop k points) = ?n - k" by simp
      have "length (take (k + 1) points) < d" using l1 k Suc.prems by linarith
      from Suc.IH [OF this] obtain left li where
        left0: "douglas_peucker_op d (take (k + 1) points) eps = Some left \<and>
          (2 \<le> length (take (k + 1) points) \<longrightarrow>
             keeps_endpoints (length (take (k + 1) points)) li \<and>
             left = map ((!) (take (k + 1) points)) li \<and>
             dropped_within eps (take (k + 1) points) li \<and>
             successively (\<lambda>a b. b = Suc a \<and> take (k + 1) points ! a = take (k + 1) points ! b
                 \<longrightarrow> length (take (k + 1) points) = 2) li)"
        by blast
      have "2 \<le> length (take (k + 1) points)" using l1 k by linarith
      with left0 have left: "douglas_peucker_op d (take (k + 1) points) eps = Some left"
          "keeps_endpoints (length (take (k + 1) points)) li"
          "left = map ((!) (take (k + 1) points)) li"
          "dropped_within eps (take (k + 1) points) li"
          "successively (\<lambda>a b. b = Suc a \<and> take (k + 1) points ! a = take (k + 1) points ! b
                 \<longrightarrow> length (take (k + 1) points) = 2) li"
        by blast+
      have lk: "keeps_endpoints (k + 1) li" using left(2) unfolding l1 .
      have "length (drop k points) < d" using l2 k Suc.prems by linarith
      from Suc.IH [OF this] obtain right ri where
        right0: "douglas_peucker_op d (drop k points) eps = Some right \<and>
          (2 \<le> length (drop k points) \<longrightarrow>
             keeps_endpoints (length (drop k points)) ri \<and>
             right = map ((!) (drop k points)) ri \<and>
             dropped_within eps (drop k points) ri \<and>
             successively (\<lambda>a b. b = Suc a \<and> drop k points ! a = drop k points ! b
                 \<longrightarrow> length (drop k points) = 2) ri)"
        by blast
      have "2 \<le> length (drop k points)" using l2 k by linarith
      with right0 have right: "douglas_peucker_op d (drop k points) eps = Some right"
          "keeps_endpoints (length (drop k points)) ri"
          "right = map ((!) (drop k points)) ri"
          "dropped_within eps (drop k points) ri"
          "successively (\<lambda>a b. b = Suc a \<and> drop k points ! a = drop k points ! b
                 \<longrightarrow> length (drop k points) = 2) ri"
        by blast+
      have rk: "keeps_endpoints (?n - k) ri" using right(2) unfolding l2 .
      have res: "douglas_peucker_op (Suc d) points eps = Some (butlast left @ right)"
        using n3 len big f left(1) right(1)
        by (simp add: douglas_peucker_op_Suc del: douglas_peucker_op.simps)
      have "take (k + 1) points ! i = points ! i" if "i \<in> set li" for i
        using keeps_endpoints_bound [OF lk that] by simp
      then have "left = map ((!) points) li"
        using left(3) by simp
      then have bl: "butlast left = map ((!) points) (butlast li)"
        by (simp add: map_butlast)
      have "i + k < ?n" if "i \<in> set ri" for i
        using keeps_endpoints_bound [OF rk that] k by linarith
      then have rr: "right = map ((!) points) (map (\<lambda>i. i + k) ri)"
        using right(3) k by (simp add: add.commute)
      have ke: "keeps_endpoints ?n (butlast li @ map (\<lambda>i. i + k) ri)"
        using lk rk k by (rule keeps_endpoints_combine)
      have eq: "butlast left @ right = map ((!) points) (butlast li @ map (\<lambda>i. i + k) ri)"
        using bl rr by simp
      have dw: "dropped_within eps points (butlast li @ map (\<lambda>i. i + k) ri)"
        using left(4) lk right(4) rk by (rule dropped_within_combine)
      have "successively (\<lambda>a b. b = Suc a \<longrightarrow> points ! a \<noteq> points ! b)
              (butlast li @ map (\<lambda>i. i + k) ri)"
        using left(5) lk right(5) rk k ne0 nel by (rule adjacent_combine)
      then have ad: "successively (\<lambda>a b. b = Suc a \<and> points ! a = points ! b \<longrightarrow> ?n = 2)
              (butlast li @ map (\<lambda>i. i + k) ri)"
        by (rule successively_mono) blast
      show ?thesis
        by (intro exI [of _ "butlast left @ right"]
            exI [of _ "butlast li @ map (\<lambda>i. i + k) ri"] conjI impI)
           (rule res ke eq dw ad)+
    qed
  qed
qed
lemma consecutive_indices:
  assumes "successively (\<lambda>a b. b = Suc a) idxs" and "idxs \<noteq> []"
  shows "idxs = [hd idxs..<hd idxs + length idxs]"
  using assms
proof (induction idxs)
  case Nil
  then show ?case by simp
next
  case (Cons x xs)
  show ?case
  proof (cases "xs = []")
    case True
    then show ?thesis by (simp add: upt_rec)
  next
    case False
    with Cons.prems have h: "hd xs = Suc x" and s: "successively (\<lambda>a b. b = Suc a) xs"
      by (simp_all add: successively_Cons)
    from Cons.IH [OF s False] h have "xs = [Suc x..<Suc x + length xs]" by simp
    moreover have "[x..<x + length (x # xs)] = x # [Suc x..<Suc x + length xs]"
      by (simp add: upt_rec)
    ultimately show ?thesis by simp
  qed
qed

lemma keeps_endpoints_all:
  assumes ke: "keeps_endpoints n idxs" and n: "1 \<le> n"
    and s: "successively (\<lambda>a b. b = Suc a) idxs"
  shows "idxs = [0..<n]"
proof -
  from ke have ne: "idxs \<noteq> []" and h: "hd idxs = 0" and l: "last idxs = n - 1"
    by (simp_all add: keeps_endpoints_def)
  from consecutive_indices [OF s ne] h have u: "idxs = [0..<length idxs]" by simp
  have "0 < length idxs" using ne by simp
  then have "last [0..<length idxs] = length idxs - 1"
    by (cases "length idxs") simp_all
  with u l have "length idxs - 1 = n - 1" by simp
  with \<open>0 < length idxs\<close> n have "length idxs = n" by linarith
  with u show ?thesis by simp
qed

lemma dropped_within_all_kept:
  assumes ke: "keeps_endpoints (length points) idxs" and n: "1 \<le> length points"
    and dw: "dropped_within tol points idxs"
    and no: "\<forall>a b. a + 2 \<le> b \<and> b < length points \<longrightarrow>
               \<not> within_tolerance tol (segment points a b)"
  shows "idxs = [0..<length points]"
proof -
  from ke have "sorted_wrt (<) idxs" by (simp add: keeps_endpoints_def)
  then have lt: "successively (<) idxs" by (rule successively_if_sorted_wrt)
  have "idxs ! Suc i = Suc (idxs ! i)" if i: "Suc i < length idxs" for i
  proof -
    have a: "idxs ! i < idxs ! Suc i"
      using successively_nth [OF lt i] .
    have "within_tolerance tol (segment points (idxs ! i) (idxs ! Suc i))"
      using dw i unfolding dropped_within_def by (rule successively_nth)
    moreover have "idxs ! Suc i \<in> set idxs" using i by simp
    then have "idxs ! Suc i \<le> length points - 1"
      by (rule keeps_endpoints_bound [OF ke])
    then have "idxs ! Suc i < length points" using n by linarith
    ultimately have "\<not> idxs ! i + 2 \<le> idxs ! Suc i" using no by blast
    with a show ?thesis by linarith
  qed
  then have "successively (\<lambda>a b. b = Suc a) idxs"
    by (simp add: successively_conv_nth)
  with ke n show ?thesis by (rule keeps_endpoints_all)
qed

lemma douglas_peucker_within_tolerance:
  assumes "0 \<le> tol" and "2 \<le> length points" and "within_tolerance tol points"
  shows "douglas_peucker (Suc d) points tol = Some [0, length points - 1]"
proof (cases "norm2 (sub2 (last points) (hd points)) < 1 / 1000000")
  case True
  show ?thesis
  proof (cases "length points < 3")
    case small: True
    with assms(2) have "length points = 2" by simp
    then show ?thesis by (simp add: douglas_peucker_Suc upt_rec del: douglas_peucker.simps)
  next
    case False
    then show ?thesis using True by (simp add: douglas_peucker_Suc del: douglas_peucker.simps)
  qed
next
  case False
  with assms(3) have "\<forall>i. 0 < i \<and> i < length points - 1 \<longrightarrow>
      chord_deviation points (points ! i) \<le> tol"
    by (simp add: within_tolerance_interior)
  with assms(1,2) show ?thesis by (rule douglas_peucker_large_tolerance)
qed

lemma douglas_peucker_op_within_tolerance:
  assumes "0 \<le> eps" and "2 \<le> length points" and "within_tolerance eps points"
  shows "douglas_peucker_op (Suc d) points eps = Some [hd points, last points]"
proof (cases "norm2 (sub2 (last points) (hd points)) < 1 / 1000000")
  case True
  show ?thesis
  proof (cases "length points \<le> 2")
    case small: True
    with assms(2) have "length points = 2" by simp
    then obtain a b where "points = [a, b]"
      by (cases points; cases "tl points") auto
    then show ?thesis by (simp add: douglas_peucker_op_Suc del: douglas_peucker_op.simps)
  next
    case False
    then show ?thesis using True by (simp add: douglas_peucker_op_Suc del: douglas_peucker_op.simps)
  qed
next
  case False
  with assms(3) have "\<forall>i. 0 < i \<and> i < length points - 1 \<longrightarrow>
      chord_deviation points (points ! i) \<le> eps"
    by (simp add: within_tolerance_interior)
  with assms(1,2) show ?thesis by (rule douglas_peucker_op_large_tolerance)
qed

lemma dropped_within_pair_iff:
  "dropped_within tol points [0, length points - 1] \<longleftrightarrow> within_tolerance tol points"
  using segment_whole [of points] by (simp add: dropped_within_def)

lemma keeps_endpoints_two:
  assumes "keeps_endpoints n idxs" and "length idxs = 2"
  shows "idxs = [0, n - 1]"
proof -
  from assms(2) obtain a b where "idxs = [a, b]"
    by (cases idxs; cases "tl idxs") auto
  with assms(1) show ?thesis by (simp add: keeps_endpoints_def)
qed


text \<open>
  Claim C3, as the code has it.  For every 2D point sequence, every tolerance that is
  not negative and a recursion depth above the number of points, both Douglas-Peucker
  functions return: a sequence of fewer than three points is returned whole, and from
  two points on the result is a subsequence of the input, at strictly increasing
  indices, that begins with the first point and ends with the last.  Points are dropped
  only between two kept points whose run passes the test of the code: its chord is
  shorter than 1e-6, or no interior point of the run deviates from the chord by more
  than the tolerance.  Hence the input is reproduced exactly whenever no run of three or
  more successive points passes that test; with tolerance 0 this asks that no such run
  has a chord shorter than 1e-6 or all its interior points on the line of its chord.
  The result is exactly the two endpoints if and only if the whole sequence passes the
  test, in particular with a tolerance of at least the deviation of every interior point
  (tolerance infinity).
\<close>

theorem douglas_peucker_simplification:
  assumes "0 \<le> tol" and "length points < depth"
  shows "(\<exists>idxs. douglas_peucker depth points tol = Some idxs \<and>
            (length points < 3 \<longrightarrow> idxs = [0..<length points]) \<and>
            (2 \<le> length points \<longrightarrow> keeps_endpoints (length points) idxs) \<and>
            dropped_within tol points idxs \<and>
            ((\<forall>a b. a + 2 \<le> b \<and> b < length points \<longrightarrow>
                \<not> within_tolerance tol (segment points a b)) \<longrightarrow>
             idxs = [0..<length points]) \<and>
            (2 \<le> length points \<longrightarrow>
               (idxs = [0, length points - 1] \<longleftrightarrow> within_tolerance tol points)) \<and>
            (2 \<le> length points \<and>
             (\<forall>i. 0 < i \<and> i < length points - 1 \<longrightarrow>
                chord_deviation points (points ! i) \<le> tol) \<longrightarrow>
             idxs = [0, length points - 1])) \<and>
         (\<exists>res idxs. douglas_peucker_op depth points tol = Some res \<and>
            (length points \<le> 2 \<longrightarrow> res = points) \<and>
            (2 \<le> length points \<longrightarrow>
               keeps_endpoints (length points) idxs \<and> res = map ((!) points) idxs \<and>
               hd res = hd points \<and> last res = last points \<and>
               dropped_within tol points idxs) \<and>
            ((\<forall>a b. a + 2 \<le> b \<and> b < length points \<longrightarrow>
                \<not> within_tolerance tol (segment points a b)) \<longrightarrow>
             res = points) \<and>
            (2 \<le> length points \<longrightarrow>
               (res = [hd points, last points] \<longleftrightarrow> within_tolerance tol points)) \<and>
            (2 \<le> length points \<and>
             (\<forall>i. 0 < i \<and> i < length points - 1 \<longrightarrow>
                chord_deviation points (points ! i) \<le> tol) \<longrightarrow>
             res = [hd points, last points]))"
proof -
  obtain d where d: "depth = Suc d"
    using assms(2) by (cases depth) simp_all
  from douglas_peucker_returns [OF assms] obtain idxs where
    lib: "douglas_peucker depth points tol = Some idxs"
      "2 \<le> length points \<longrightarrow> keeps_endpoints (length points) idxs"
    by blast
  have lib_small: "length points < 3 \<longrightarrow> idxs = [0..<length points]"
  proof
    assume "length points < 3"
    then have "douglas_peucker (Suc d) points tol = Some [0..<length points]"
      by (simp only: douglas_peucker_Suc if_True)
    with lib(1) show "idxs = [0..<length points]"
      by (simp only: d option.inject)
  qed
  have lib_dw: "dropped_within tol points idxs"
    using assms lib(1) by (rule douglas_peucker_dropped_within)
  have lib_all0: "idxs = [0..<length points]"
    if no: "\<forall>a b. a + 2 \<le> b \<and> b < length points \<longrightarrow>
              \<not> within_tolerance tol (segment points a b)"
  proof (cases "length points < 3")
    case True
    with lib_small show ?thesis by simp
  next
    case False
    then have "keeps_endpoints (length points) idxs" "1 \<le> length points"
      using lib(2) by simp_all
    then show ?thesis using lib_dw no by (rule dropped_within_all_kept)
  qed
  from lib_all0 have lib_all: "(\<forall>a b. a + 2 \<le> b \<and> b < length points \<longrightarrow>
      \<not> within_tolerance tol (segment points a b)) \<longrightarrow> idxs = [0..<length points]"
    by (rule impI)
  have lib_iff0: "idxs = [0, length points - 1] \<longleftrightarrow> within_tolerance tol points"
    if n2: "2 \<le> length points"
  proof
    assume "idxs = [0, length points - 1]"
    with lib_dw show "within_tolerance tol points"
      by (simp only: dropped_within_pair_iff)
  next
    assume "within_tolerance tol points"
    with assms(1) n2 have "douglas_peucker (Suc d) points tol = Some [0, length points - 1]"
      by (rule douglas_peucker_within_tolerance)
    with lib(1) show "idxs = [0, length points - 1]"
      by (simp only: d option.inject)
  qed
  from lib_iff0 have lib_iff: "2 \<le> length points \<longrightarrow>
      (idxs = [0, length points - 1] \<longleftrightarrow> within_tolerance tol points)"
    by (rule impI)
  have lib_large0: "idxs = [0, length points - 1]"
    if "2 \<le> length points \<and>
        (\<forall>i. 0 < i \<and> i < length points - 1 \<longrightarrow> chord_deviation points (points ! i) \<le> tol)"
  proof -
    have "douglas_peucker (Suc d) points tol = Some [0, length points - 1]"
      using assms(1) that by (intro douglas_peucker_large_tolerance) blast+
    with lib(1) show ?thesis
      by (simp only: d option.inject)
  qed
  from lib_large0 have lib_large: "2 \<le> length points \<and>
      (\<forall>i. 0 < i \<and> i < length points - 1 \<longrightarrow> chord_deviation points (points ! i) \<le> tol) \<longrightarrow>
      idxs = [0, length points - 1]"
    by (rule impI)
  from douglas_peucker_op_segments [OF assms] obtain res oidxs where
    op: "douglas_peucker_op depth points tol = Some res" and
    op2: "2 \<le> length points \<longrightarrow>
         keeps_endpoints (length points) oidxs \<and> res = map ((!) points) oidxs \<and>
         dropped_within tol points oidxs \<and>
         successively (\<lambda>a b. b = Suc a \<and> points ! a = points ! b \<longrightarrow> length points = 2) oidxs"
    by blast
  have op_small: "length points \<le> 2 \<longrightarrow> res = points"
  proof
    assume "length points \<le> 2"
    then have "douglas_peucker_op (Suc d) points tol = Some points"
      by (simp only: douglas_peucker_op_Suc if_True)
    with op show "res = points"
      by (simp only: d option.inject)
  qed
  have op_sub0: "keeps_endpoints (length points) oidxs \<and> res = map ((!) points) oidxs \<and>
      hd res = hd points \<and> last res = last points \<and> dropped_within tol points oidxs"
    if "2 \<le> length points"
  proof -
    from that have "points \<noteq> []" by (cases points) simp_all
    with op2 that keeps_endpoints_map_ends [of points oidxs] show ?thesis by simp
  qed
  from op_sub0 have op_sub: "2 \<le> length points \<longrightarrow>
      keeps_endpoints (length points) oidxs \<and> res = map ((!) points) oidxs \<and>
      hd res = hd points \<and> last res = last points \<and> dropped_within tol points oidxs"
    by (rule impI)
  have op_all0: "res = points"
    if no: "\<forall>a b. a + 2 \<le> b \<and> b < length points \<longrightarrow>
              \<not> within_tolerance tol (segment points a b)"
  proof (cases "length points \<le> 2")
    case True
    with op_small show ?thesis by simp
  next
    case False
    then have n: "2 \<le> length points" "1 \<le> length points" by simp_all
    from op_sub0 [OF n(1)] have ke: "keeps_endpoints (length points) oidxs"
      and r: "res = map ((!) points) oidxs" and dw: "dropped_within tol points oidxs"
      by simp_all
    from ke n(2) dw no have "oidxs = [0..<length points]"
      by (rule dropped_within_all_kept)
    with r show ?thesis by (simp add: map_nth)
  qed
  from op_all0 have op_all: "(\<forall>a b. a + 2 \<le> b \<and> b < length points \<longrightarrow>
      \<not> within_tolerance tol (segment points a b)) \<longrightarrow> res = points"
    by (rule impI)
  have op_iff0: "res = [hd points, last points] \<longleftrightarrow> within_tolerance tol points"
    if n2: "2 \<le> length points"
  proof
    assume e: "res = [hd points, last points]"
    from op_sub0 [OF n2] have ke: "keeps_endpoints (length points) oidxs"
      and r: "res = map ((!) points) oidxs" and dw: "dropped_within tol points oidxs"
      by simp_all
    from e r have "length oidxs = 2"
      by (metis length_map length_Cons list.size(3) numeral_2_eq_2)
    with ke have "oidxs = [0, length points - 1]" by (rule keeps_endpoints_two)
    with dw show "within_tolerance tol points"
      by (simp only: dropped_within_pair_iff)
  next
    assume "within_tolerance tol points"
    with assms(1) n2 have "douglas_peucker_op (Suc d) points tol = Some [hd points, last points]"
      by (rule douglas_peucker_op_within_tolerance)
    with op show "res = [hd points, last points]"
      by (simp only: d option.inject)
  qed
  from op_iff0 have op_iff: "2 \<le> length points \<longrightarrow>
      (res = [hd points, last points] \<longleftrightarrow> within_tolerance tol points)"
    by (rule impI)
  have op_large0: "res = [hd points, last points]"
    if "2 \<le> length points \<and>
        (\<forall>i. 0 < i \<and> i < length points - 1 \<longrightarrow> chord_deviation points (points ! i) \<le> tol)"
  proof -
    have "douglas_peucker_op (Suc d) points tol = Some [hd points, last points]"
      using assms(1) that by (intro douglas_peucker_op_large_tolerance) blast+
    with op show ?thesis
      by (simp only: d option.inject)
  qed
  from op_large0 have op_large: "2 \<le> length points \<and>
      (\<forall>i. 0 < i \<and> i < length points - 1 \<longrightarrow> chord_deviation points (points ! i) \<le> tol) \<longrightarrow>
      res = [hd points, last points]"
    by (rule impI)
  have "\<exists>idxs. douglas_peucker depth points tol = Some idxs \<and>
            (length points < 3 \<longrightarrow> idxs = [0..<length points]) \<and>
            (2 \<le> length points \<longrightarrow> keeps_endpoints (length points) idxs) \<and>
            dropped_within tol points idxs \<and>
            ((\<forall>a b. a + 2 \<le> b \<and> b < length points \<longrightarrow>
                \<not> within_tolerance tol (segment points a b)) \<longrightarrow>
             idxs = [0..<length points]) \<and>
            (2 \<le> length points \<longrightarrow>
               (idxs = [0, length points - 1] \<longleftrightarrow> within_tolerance tol points)) \<and>
            (2 \<le> length points \<and>
             (\<forall>i. 0 < i \<and> i < length points - 1 \<longrightarrow>
                chord_deviation points (points ! i) \<le> tol) \<longrightarrow>
             idxs = [0, length points - 1])"
    by (intro exI [of _ idxs] conjI)
       (rule lib(1) lib_small lib(2) lib_dw lib_all lib_iff lib_large)+
  moreover have "\<exists>res idxs. douglas_peucker_op depth points tol = Some res \<and>
            (length points \<le> 2 \<longrightarrow> res = points) \<and>
            (2 \<le> length points \<longrightarrow>
               keeps_endpoints (length points) idxs \<and> res = map ((!) points) idxs \<and>
               hd res = hd points \<and> last res = last points \<and>
               dropped_within tol points idxs) \<and>
            ((\<forall>a b. a + 2 \<le> b \<and> b < length points \<longrightarrow>
                \<not> within_tolerance tol (segment points a b)) \<longrightarrow>
             res = points) \<and>
            (2 \<le> length points \<longrightarrow>
               (res = [hd points, last points] \<longleftrightarrow> within_tolerance tol points)) \<and>
            (2 \<le> length points \<and>
             (\<forall>i. 0 < i \<and> i < length points - 1 \<longrightarrow>
                chord_deviation points (points ! i) \<le> tol) \<longrightarrow>
             res = [hd points, last points])"
    by (intro exI [of _ res] exI [of _ oidxs] conjI)
       (rule op op_small op_sub op_all op_iff op_large)+
  ultimately show ?thesis by (rule conjI)
qed

text \<open>
  The theorem at the three points of a triangle and tolerance 0: the apex deviates by 1
  from the chord, so the only run of three points does not pass the test, and both
  functions return the input whole.
\<close>

lemma douglas_peucker_triangle:
  "\<not> within_tolerance 0 (segment [(0, 0), (1, 1), (2, 0)] 0 2)"
proof -
  have "chord_deviation [(0, 0), (1, 1), (2, 0)] ([(0, 0), (1, 1), (2, 0)] ! 1) = 1"
    by (simp add: chord_deviation_def chord_unit_def point_line_distance_def Let_def)
  moreover have "(1 :: nat) \<in> {1..<length [(0 :: real, 0 :: real), (1, 1), (2, 0)] - 1}"
    by simp
  ultimately have "\<not> (\<forall>i \<in> {1..<length [(0 :: real, 0 :: real), (1, 1), (2, 0)] - 1}.
      chord_deviation [(0, 0), (1, 1), (2, 0)] ([(0, 0), (1, 1), (2, 0)] ! i) \<le> 0)"
    by (metis not_one_le_zero)
  moreover have "\<not> norm2 (sub2 (last [(0, 0), (1, 1), (2, 0)]) (hd [(0, 0), (1, 1), (2, 0)]))
      < 1 / 1000000"
    by (simp add: norm2_x_axis del: norm2.simps)
  ultimately show ?thesis
    by (simp only: within_tolerance_def segment_def) simp
qed

theorem douglas_peucker_simplification_witness:
  "(0 :: real) \<le> 0 \<and> length [(0 :: real, 0 :: real), (1, 1), (2, 0)] < 4 \<and>
   \<not> within_tolerance 0 (segment [(0, 0), (1, 1), (2, 0)] 0 2) \<and>
   douglas_peucker 4 [(0, 0), (1, 1), (2, 0)] 0 = Some [0, 1, 2] \<and>
   douglas_peucker_op 4 [(0, 0), (1, 1), (2, 0)] 0 = Some [(0, 0), (1, 1), (2, 0)]"
proof -
  let ?tri = "[(0 :: real, 0 :: real), (1, 1), (2, 0)]"
  have h: "(0 :: real) \<le> 0" "length ?tri < 4"
    by simp_all
  have no: "\<forall>a b. a + 2 \<le> b \<and> b < length ?tri \<longrightarrow>
      \<not> within_tolerance 0 (segment ?tri a b)"
  proof (intro allI impI)
    fix a b :: nat
    assume "a + 2 \<le> b \<and> b < length ?tri"
    then have "a = 0" "b = 2" by simp_all
    then show "\<not> within_tolerance 0 (segment ?tri a b)"
      using douglas_peucker_triangle by simp
  qed
  note t = douglas_peucker_simplification [OF h]
  from conjunct1 [OF t] obtain idxs where
    "douglas_peucker 4 ?tri 0 = Some idxs"
    "(\<forall>a b. a + 2 \<le> b \<and> b < length ?tri \<longrightarrow>
        \<not> within_tolerance 0 (segment ?tri a b)) \<longrightarrow> idxs = [0..<length ?tri]"
    by (elim exE conjE)
  with no have "douglas_peucker 4 ?tri 0 = Some [0..<length ?tri]"
    by (simp only:)
  moreover from conjunct2 [OF t] obtain res oidxs where
    "douglas_peucker_op 4 ?tri 0 = Some res"
    "(\<forall>a b. a + 2 \<le> b \<and> b < length ?tri \<longrightarrow>
        \<not> within_tolerance 0 (segment ?tri a b)) \<longrightarrow> res = ?tri"
    by (elim exE conjE)
  with no have "douglas_peucker_op 4 ?tri 0 = Some ?tri"
    by (simp only:)
  moreover have "[0..<length ?tri] = [0, 1, 2]"
    by (simp add: upt_rec)
  ultimately show ?thesis
    using h douglas_peucker_triangle by simp
qed

text \<open>
  Three collinear points and tolerance 0: both functions return the two endpoints only,
  not the input.
\<close>

theorem douglas_peucker_zero_tolerance_counterexample:
  "douglas_peucker 4 [(0, 0), (1, 0), (2, 0)] 0 = Some [0, 2] \<and>
   douglas_peucker_op 4 [(0, 0), (1, 0), (2, 0)] 0 = Some [(0, 0), (2, 0)]"
  by (simp add: eval_nat_numeral point_line_distance_def find_max_interior_def list_max_def
      index_of_def Let_def norm2_x_axis upt_rec del: norm2.simps)

section \<open>Properties of the waypoint extraction\<close>
























end
